theory Spec2Isabelle
  imports Main "HOL-Library.Word"
begin

section \<open>Option configuration console: data model\<close>

text \<open>
  The console of \<^verbatim>\<open>settings_ui.c\<close> (the variant with parent and child rows) browses a
  tree of settings blocks. C's \<^verbatim>\<open>unsigned int\<close> is a 32-bit word: \<open>+\<close> and \<open>-\<close> wrap
  around.
\<close>

type_synonym u32 = "32 word"

text \<open>
  A settings block as the console reads it: its name, its tag magic and the ordered
  list of its children. The tree is not changed by the console, so a pointer to a
  block is represented by the block together with the chain of its ancestors:
  \<open>parent\<close> is the C field \<^verbatim>\<open>settings->parent\<close> (\<open>None\<close> is \<^verbatim>\<open>NULL\<close>), and the
  children of a block point back to it.
\<close>

datatype block = Block (block_name: string) (block_tag_magic: u32) (block_children: "block list")

datatype settings = Settings (parent: "settings option") (block: block)

definition scope_name :: "settings \<Rightarrow> string" where
  "scope_name s = block_name (block s)"

definition tag_magic :: "settings \<Rightarrow> u32" where
  "tag_magic s = block_tag_magic (block s)"

definition children :: "settings \<Rightarrow> settings list" where
  "children s = map (Settings (Some s)) (block_children (block s))"

text \<open>A setting descriptor of the registry, with the fields the console reads.\<close>

record setting =
  name :: string
  description :: string
  tag :: u32

text \<open>
  What the console takes from headers and libraries that are not part of the sources:
  the registry table \<^verbatim>\<open>SETTINGS\<close>, the macros \<^verbatim>\<open>TAG_TYPE\<close> and \<^verbatim>\<open>TAG_READONLY\<close>, the
  screen width \<^verbatim>\<open>COLS\<close>, and the functions \<^verbatim>\<open>strerror\<close> and \<^verbatim>\<open>settings_name\<close>. They are
  parameters of every definition below.
\<close>

record env =
  SETTINGS :: "setting list"
  TAG_TYPE :: "u32 \<Rightarrow> u32"
  TAG_READONLY :: "u32 \<Rightarrow> bool"
  COLS :: u32
  strerror :: "int \<Rightarrow> string"
  settings_name :: "settings \<Rightarrow> string"

text \<open>
  The row object: the C struct is a type tag and a union. The pointers of the parent
  and child members are nullable (\<open>None\<close> is \<^verbatim>\<open>NULL\<close>).
\<close>

datatype row_object =
    PARENT_ROW "settings option"
  | CHILD_ROW "settings option"
  | SETTING_ROW setting
  | ROW_CNT u32

section \<open>Row enumerator\<close>

lemma block_child_size: "b \<in> set (block_children B) \<Longrightarrow> size b < size B"
  by (cases B) (auto simp: less_Suc_eq_le dest: size_list_estimation')

function relevant :: "env \<Rightarrow> settings \<Rightarrow> setting \<Rightarrow> bool" where
  "relevant e s d =
     (if TAG_TYPE e (tag d) = TAG_TYPE e (tag_magic s) then True
      else list_ex (\<lambda>child. relevant e child d) (children s))"
  by pat_completeness auto
termination
  by (relation "measure (\<lambda>(e, s, d). size (block s))")
     (auto simp: children_def dest: block_child_size)

declare relevant.simps [simp del]

text \<open>
  The three loops of \<^verbatim>\<open>row\<close>. Each either returns a row (\<open>Inl\<close>) or falls through with
  the counter (\<open>Inr\<close>); \<^verbatim>\<open>cnt++ == n\<close> compares before it increments.
\<close>

definition row_parent :: "settings \<Rightarrow> u32 \<Rightarrow> u32 \<Rightarrow> row_object + u32" where
  "row_parent s cnt n =
     (if parent s \<noteq> None
      then (if cnt = n then Inl (PARENT_ROW (parent s)) else Inr (cnt + 1))
      else Inr cnt)"

fun row_children :: "settings list \<Rightarrow> u32 \<Rightarrow> u32 \<Rightarrow> row_object + u32" where
  "row_children [] cnt n = Inr cnt"
| "row_children (child # rest) cnt n =
     (if cnt = n then Inl (CHILD_ROW (Some child)) else row_children rest (cnt + 1) n)"

fun row_settings :: "env \<Rightarrow> settings \<Rightarrow> setting list \<Rightarrow> u32 \<Rightarrow> u32 \<Rightarrow> row_object + u32" where
  "row_settings e s [] cnt n = Inr cnt"
| "row_settings e s (d # rest) cnt n =
     (if relevant e s d
      then (if cnt = n then Inl (SETTING_ROW d) else row_settings e s rest (cnt + 1) n)
      else row_settings e s rest cnt n)"

definition row :: "env \<Rightarrow> settings \<Rightarrow> u32 \<Rightarrow> row_object" where
  "row e s n =
     (case row_parent s 0 n of
        Inl r \<Rightarrow> r
      | Inr cnt1 \<Rightarrow>
          (case row_children (children s) cnt1 n of
             Inl r \<Rightarrow> r
           | Inr cnt2 \<Rightarrow>
               (case row_settings e s (SETTINGS e) cnt2 n of
                  Inl r \<Rightarrow> r
                | Inr cnt3 \<Rightarrow> ROW_CNT cnt3)))"

text \<open>The blocks of the subtree of a scope, the scope first.\<close>

function subtree :: "settings \<Rightarrow> settings list" where
  "subtree s = s # concat (map subtree (children s))"
  by pat_completeness auto
termination
  by (relation "measure (\<lambda>s. size (block s))")
     (auto simp: children_def dest: block_child_size)

declare subtree.simps [simp del]

text \<open>
  The canonical order in the words of the specification: the parent row if there is a
  parent, one child row per child, one setting row per descriptor whose tag type is the
  tag type of a block of the scope's subtree.
\<close>

definition relevant_in_subtree :: "env \<Rightarrow> settings \<Rightarrow> setting \<Rightarrow> bool" where
  "relevant_in_subtree e s d =
     list_ex (\<lambda>s'. TAG_TYPE e (tag d) = TAG_TYPE e (tag_magic s')) (subtree s)"

definition canonical_rows :: "env \<Rightarrow> settings \<Rightarrow> row_object list" where
  "canonical_rows e s =
     (case parent s of None \<Rightarrow> [] | Some p \<Rightarrow> [PARENT_ROW (Some p)])
     @ map (\<lambda>c. CHILD_ROW (Some c)) (children s)
     @ map SETTING_ROW (filter (relevant_in_subtree e s) (SETTINGS e))"

section \<open>Collaborators of the console\<close>

subsection \<open>Settings store\<close>

text \<open>
  Modelled from the spec: the settings store (\<^verbatim>\<open>fetch_setting\<close>, \<^verbatim>\<open>fetch_setting_ex\<close>,
  \<^verbatim>\<open>fetchf_setting\<close>, \<^verbatim>\<open>storef_setting\<close> and \<^verbatim>\<open>delete_setting\<close> of \<^verbatim>\<open>gpxe/settings.h\<close>, whose
  code is not part of the sources). The store holds at most one formatted value per
  scope and descriptor. A typed store returns 0 and holds the new value, or returns an
  error code and changes nothing; \<open>verdict\<close> is the return code the typed store gives for
  a scope, a descriptor and a string. A delete removes the value. A fetch with flags 0
  looks at the scope only; a fetch with other flags, and the plain and the formatted
  fetch, also look into the scopes below it. A fetch returns the length of the value,
  or a negative error when there is none; the formatted fetch fills a buffer of
  \<open>len\<close> bytes and leaves it as it was when there is no value.
\<close>

record settings_store =
  stored :: "settings \<times> setting \<Rightarrow> string option"
  verdict :: "settings \<Rightarrow> setting \<Rightarrow> string \<Rightarrow> int"

definition fetch_value :: "settings_store \<Rightarrow> settings \<Rightarrow> setting \<Rightarrow> u32 \<Rightarrow> string option" where
  "fetch_value st s d flags =
     (if flags = 0 then stored st (s, d)
      else (case List.map_filter (\<lambda>s'. stored st (s', d)) (subtree s) of
              [] \<Rightarrow> None
            | v # _ \<Rightarrow> Some v))"

definition fetch_setting_ex :: "settings_store \<Rightarrow> settings \<Rightarrow> setting \<Rightarrow> u32 \<Rightarrow> int" where
  "fetch_setting_ex st s d flags =
     (case fetch_value st s d flags of None \<Rightarrow> - 1 | Some v \<Rightarrow> int (length v))"

definition fetch_setting :: "settings_store \<Rightarrow> settings \<Rightarrow> setting \<Rightarrow> int" where
  "fetch_setting st s d = fetch_setting_ex st s d 1"

definition fetchf_setting ::
  "settings_store \<Rightarrow> settings \<Rightarrow> setting \<Rightarrow> string \<Rightarrow> nat \<Rightarrow> int \<times> string" where
  "fetchf_setting st s d buf len =
     (case fetch_value st s d 1 of
        None \<Rightarrow> (- 1, buf)
      | Some v \<Rightarrow> (int (length (take (len - 1) v)), take (len - 1) v))"

definition storef_setting ::
  "settings_store \<Rightarrow> settings \<Rightarrow> setting \<Rightarrow> string \<Rightarrow> int \<times> settings_store" where
  "storef_setting st s d v =
     (let rc = verdict st s d v
      in if rc = 0 then (0, st\<lparr>stored := (stored st)((s, d) \<mapsto> v)\<rparr>) else (rc, st))"

definition delete_setting :: "settings_store \<Rightarrow> settings \<Rightarrow> setting \<Rightarrow> settings_store" where
  "delete_setting st s d = st\<lparr>stored := (stored st)((s, d) := None)\<rparr>"

subsection \<open>Line editor\<close>

text \<open>
  Modelled from the spec: the single-line editor (\<^verbatim>\<open>init_editbox\<close>, \<^verbatim>\<open>edit_editbox\<close> of
  \<^verbatim>\<open>gpxe/editbox.h\<close>, whose code is not part of the sources). It is initialised on a
  buffer with its maximum length, a screen position and a field width. Fed one key, it
  either consumes it (a printable character, inserted at the cursor while the buffer
  has room) and returns 0, or gives the key back unconsumed, as it does for the confirm
  and cancel keys. The buffer is the widget's value buffer.
\<close>

record edit_box =
  eb_len :: nat
  eb_row :: u32
  eb_col :: u32
  eb_width :: nat
  eb_cursor :: nat

definition zero_editbox :: edit_box where
  "zero_editbox = \<lparr>eb_len = 0, eb_row = 0, eb_col = 0, eb_width = 0, eb_cursor = 0\<rparr>"

definition init_editbox :: "string \<Rightarrow> nat \<Rightarrow> u32 \<Rightarrow> u32 \<Rightarrow> nat \<Rightarrow> edit_box" where
  "init_editbox buf len r c width =
     \<lparr>eb_len = len, eb_row = r, eb_col = c, eb_width = width, eb_cursor = length buf\<rparr>"

definition edit_editbox :: "edit_box \<Rightarrow> string \<Rightarrow> int \<Rightarrow> int \<times> edit_box \<times> string" where
  "edit_editbox eb buf key =
     (if 32 \<le> key \<and> key < 127
      then (if length buf + 1 < eb_len eb
            then (0, eb\<lparr>eb_cursor := eb_cursor eb + 1\<rparr>,
                  take (eb_cursor eb) buf @ [char_of key] @ drop (eb_cursor eb) buf)
            else (0, eb, buf))
      else (key, eb, buf))"

subsection \<open>Keys\<close>

text \<open>
  Modelled from the spec: the symbolic key codes read from the terminal (the macros of
  \<^verbatim>\<open>gpxe/keys.h\<close>, which is not part of the sources). The control keys are their ASCII
  codes; the arrow keys lie above the character range.
\<close>

definition CTRL_C :: int where "CTRL_C = 0x03"
definition CTRL_D :: int where "CTRL_D = 0x04"
definition CTRL_X :: int where "CTRL_X = 0x18"
definition LF :: int where "LF = 0x0a"
definition CR :: int where "CR = 0x0d"
definition KEY_UP :: int where "KEY_UP = 0x142"
definition KEY_DOWN :: int where "KEY_DOWN = 0x143"

lemmas key_defs = CTRL_C_def CTRL_D_def CTRL_X_def LF_def CR_def KEY_UP_def KEY_DOWN_def

subsection \<open>Terminal\<close>

text \<open>
  The terminal is written only: the model records the calls made to it, in order.
\<close>

datatype colour = COLOR_WHITE | COLOR_BLUE | COLOR_RED | COLOR_BLACK | COLOR_CYAN

datatype curses_call =
    Initscr
  | Start_color
  | Init_pair nat colour colour
  | Erase
  | Endwin
  | Color_set nat
  | Attron_bold
  | Attroff_bold
  | Move u32 u32
  | Clrtoeol
  | Mvprintw u32 u32 string
  | Mvaddstr u32 u32 string
  | Sleep nat
  | Draw_editbox edit_box string

abbreviation (input) CPAIR_NORMAL :: nat where "CPAIR_NORMAL \<equiv> 1"
abbreviation (input) CPAIR_SELECT :: nat where "CPAIR_SELECT \<equiv> 2"
abbreviation (input) CPAIR_EDIT :: nat where "CPAIR_EDIT \<equiv> 3"
abbreviation (input) CPAIR_ALERT :: nat where "CPAIR_ALERT \<equiv> 4"

abbreviation (input) TITLE_ROW :: u32 where "TITLE_ROW \<equiv> 1"
abbreviation (input) SETTINGS_LIST_ROW :: u32 where "SETTINGS_LIST_ROW \<equiv> 3"
abbreviation (input) SETTINGS_LIST_COL :: u32 where "SETTINGS_LIST_COL \<equiv> 1"
abbreviation (input) SETTINGS_LIST_ROWS :: u32 where "SETTINGS_LIST_ROWS \<equiv> 16"
abbreviation (input) INFO_ROW :: u32 where "INFO_ROW \<equiv> 20"
abbreviation (input) ALERT_ROW :: u32 where "ALERT_ROW \<equiv> 20"
abbreviation (input) COMMENT_ROW :: u32 where "COMMENT_ROW \<equiv> 21"
abbreviation (input) INSTRUCTION_ROW :: u32 where "INSTRUCTION_ROW \<equiv> 22"

definition INSTRUCTION_PAD :: string where
  "INSTRUCTION_PAD = ''     ''"

text \<open>
  \<^verbatim>\<open>vmsg\<close> formats into a buffer of \<^verbatim>\<open>COLS\<close> bytes and centres it; the column is computed
  in unsigned arithmetic from the full length of the formatted text.
\<close>

definition msg :: "env \<Rightarrow> u32 \<Rightarrow> string \<Rightarrow> curses_call list" where
  "msg e r text =
     [Mvprintw r ((COLS e - of_nat (length text)) div 2) (take (unat (COLS e) - 1) text)]"

definition clearmsg :: "u32 \<Rightarrow> curses_call list" where
  "clearmsg r = [Move r 0, Clrtoeol]"

definition alert :: "env \<Rightarrow> string \<Rightarrow> curses_call list" where
  "alert e text =
     clearmsg ALERT_ROW @ [Color_set CPAIR_ALERT] @ msg e ALERT_ROW text
     @ [Sleep 2, Color_set CPAIR_NORMAL] @ clearmsg ALERT_ROW"

section \<open>The setting widget\<close>

text \<open>
  The fields of \<^verbatim>\<open>struct setting_widget\<close> in their order (\<open>row_w\<close> and \<open>value_w\<close> are the
  C fields \<^verbatim>\<open>row\<close> and \<^verbatim>\<open>value\<close>), followed by what the C code keeps outside the widget:
  the local variable \<^verbatim>\<open>current\<close> of \<^verbatim>\<open>main_loop\<close>, the settings store, and the calls made
  to the terminal so far.
\<close>

record machine =
  settings :: settings
  total_rows :: u32
  first_visible :: u32
  ro :: row_object
  row_w :: u32
  col :: u32
  editbox :: edit_box
  editing :: bool
  value_w :: string
  current :: u32
  store :: settings_store
  screen :: "curses_call list"

text \<open>
  A call either returns, or reads through a pointer that is not one (the count of a
  count row read as a pointer, a \<^verbatim>\<open>NULL\<close> parent), or does not return.
\<close>

datatype 'a outcome = Done 'a | Fault | Diverge

definition emit :: "curses_call list \<Rightarrow> machine \<Rightarrow> machine" where
  "emit calls m = m\<lparr>screen := screen m @ calls\<rparr>"

text \<open>
  \<^verbatim>\<open>strncpy\<close> into the value buffer of 256 bytes: a source of 256 characters or more
  leaves the buffer without its terminator, and every later read of the value runs
  past the buffer.
\<close>

definition strncpy_value :: "string \<Rightarrow> string outcome" where
  "strncpy_value src = (if length src < 256 then Done src else Fault)"

definition load_setting :: "machine \<Rightarrow> machine outcome" where
  "load_setting m =
     (let m1 = m\<lparr>editing := False, value_w := []\<rparr>
      in case (case ro m1 of
                 PARENT_ROW p \<Rightarrow>
                   (case p of
                      None \<Rightarrow> Fault
                    | Some ps \<Rightarrow>
                        strncpy_value (if scope_name ps \<noteq> [] then scope_name ps else ''<root>''))
               | CHILD_ROW c \<Rightarrow>
                   (case c of None \<Rightarrow> Fault | Some cs \<Rightarrow> strncpy_value (scope_name cs))
               | SETTING_ROW d \<Rightarrow>
                   Done (snd (fetchf_setting (store m1) (settings m1) d (value_w m1) 256))
               | ROW_CNT cnt \<Rightarrow> Fault) of
           Done v \<Rightarrow>
             Done (m1\<lparr>value_w := v,
                       editbox := init_editbox v 256 (row_w m1) (col m1 + 17) 60\<rparr>)
         | Fault \<Rightarrow> Fault
         | Diverge \<Rightarrow> Diverge)"

definition save_setting :: "machine \<Rightarrow> (int \<times> settings_store) outcome" where
  "save_setting m =
     (case ro m of
        SETTING_ROW d \<Rightarrow> Done (storef_setting (store m) (settings m) d (value_w m))
      | _ \<Rightarrow> Fault)"

text \<open>
  \<^verbatim>\<open>draw_setting\<close>: the row text is a space, the name padded with dots to 15 characters,
  a space, the value padded with spaces to 60 characters, and a space.
\<close>

definition draw_setting :: "machine \<Rightarrow> machine" where
  "draw_setting m =
     (let nm = (case ro m of
                  SETTING_ROW d \<Rightarrow> name d
                | PARENT_ROW p \<Rightarrow> ''parent''
                | _ \<Rightarrow> ''child'');
          name_field = take 15 nm @ replicate (15 - length nm) (CHR ''.'');
          v = (if value_w m = [] then ''<not specified>'' else value_w m);
          len = min (length v) 60;
          value_field = take 60 v @ replicate (60 - length v) (CHR '' '');
          curs_col = col m + 17 + of_nat len;
          bold = (case ro m of
                    SETTING_ROW d \<Rightarrow> fetch_setting_ex (store m) (settings m) d 0 \<ge> 0
                  | _ \<Rightarrow> True)
      in emit ((if bold then [Attron_bold] else [])
               @ [Mvprintw (row_w m) (col m)
                    ([CHR '' ''] @ name_field @ [CHR '' ''] @ value_field @ [CHR '' ''])]
               @ (if bold then [Attroff_bold] else [])
               @ [Move (row_w m) curs_col]
               @ (if editing m then [Draw_editbox (editbox m) (value_w m)] else [])) m)"

definition edit_setting :: "machine \<Rightarrow> int \<Rightarrow> int \<times> machine" where
  "edit_setting m key =
     (case edit_editbox (editbox m) (value_w m) key of
        (key', eb, buf) \<Rightarrow> (key', m\<lparr>editing := True, editbox := eb, value_w := buf\<rparr>))"

text \<open>
  \<^verbatim>\<open>select_setting\<close> clears the widget from the field \<^verbatim>\<open>ro\<close> on, keeping the scope, the
  row count and the first visible index.
\<close>

definition select_setting :: "env \<Rightarrow> machine \<Rightarrow> u32 \<Rightarrow> machine outcome" where
  "select_setting e m index =
     load_setting
       (m\<lparr>ro := row e (settings m) index,
          row_w := SETTINGS_LIST_ROW + index - first_visible m,
          col := SETTINGS_LIST_COL,
          editbox := zero_editbox,
          editing := False,
          value_w := []\<rparr>)"

section \<open>Scroll window\<close>

text \<open>
  The two jump-scroll loops of \<^verbatim>\<open>reveal\<close>. In 32-bit arithmetic either can run forever
  (from a first visible index 5 the second loop wraps around and never stops at or below
  a target 3); not returning is the value \<open>None\<close>.
\<close>

partial_function (option) scroll_forward :: "u32 \<Rightarrow> u32 \<Rightarrow> u32 option" where
  "scroll_forward fv n = (if fv < n then scroll_forward (fv + SETTINGS_LIST_ROWS) n else Some fv)"

partial_function (option) scroll_back :: "u32 \<Rightarrow> u32 \<Rightarrow> u32 option" where
  "scroll_back fv n = (if fv > n then scroll_back (fv - SETTINGS_LIST_ROWS) n else Some fv)"

declare scroll_forward.simps [code]
declare scroll_back.simps [code]

text \<open>The on-screen test of \<^verbatim>\<open>reveal\<close>, one unsigned comparison.\<close>

definition on_screen :: "u32 \<Rightarrow> u32 \<Rightarrow> bool" where
  "on_screen fv n = (n - fv < SETTINGS_LIST_ROWS)"

lemma draw_visible_measure: "(i::u32) < 16 \<Longrightarrow> 16 - unat (i + 1) < 16 - unat i"
proof -
  assume "i < 16"
  then have a: "unat i < 16" by (simp add: word_less_nat_alt)
  then have "unat (i + 1) = unat i + 1"
    by (simp add: unat_word_ariths)
  with a show ?thesis by simp
qed

text \<open>The loop of \<^verbatim>\<open>reveal\<close> that draws the visible rows, from row \<open>i\<close> on.\<close>

function draw_visible :: "env \<Rightarrow> u32 \<Rightarrow> machine \<Rightarrow> machine outcome" where
  "draw_visible e i m =
     (if i < SETTINGS_LIST_ROWS
      then (if first_visible m + i < total_rows m
            then (case select_setting e m (first_visible m + i) of
                    Done m' \<Rightarrow> draw_visible e (i + 1) (draw_setting m')
                  | Fault \<Rightarrow> Fault
                  | Diverge \<Rightarrow> Diverge)
            else draw_visible e (i + 1) (emit (clearmsg (SETTINGS_LIST_ROW + i)) m))
      else Done m)"
  by pat_completeness auto
termination
  by (relation "measure (\<lambda>(e, i, m). 16 - unat i)") (simp_all add: draw_visible_measure)

declare draw_visible.simps [simp del]

definition reveal :: "env \<Rightarrow> machine \<Rightarrow> u32 \<Rightarrow> machine outcome" where
  "reveal e m n =
     (if on_screen (first_visible m) n then Done m
      else (case scroll_forward (first_visible m) n of
              None \<Rightarrow> Diverge
            | Some fv1 \<Rightarrow>
                (case scroll_back fv1 n of
                   None \<Rightarrow> Diverge
                 | Some fv2 \<Rightarrow>
                     (let m1 = m\<lparr>first_visible := fv2\<rparr>;
                          m2 = emit [Mvaddstr (SETTINGS_LIST_ROW - 1) (SETTINGS_LIST_COL + 1)
                                       (if first_visible m1 > 0 then ''...'' else ''   ''),
                                     Mvaddstr (SETTINGS_LIST_ROW + SETTINGS_LIST_ROWS)
                                       (SETTINGS_LIST_COL + 1)
                                       (if first_visible m1 + SETTINGS_LIST_ROWS < total_rows m1
                                        then ''...'' else ''   '')] m1
                      in case draw_visible e 0 m2 of
                           Done m3 \<Rightarrow> select_setting e m3 n
                         | Fault \<Rightarrow> Fault
                         | Diverge \<Rightarrow> Diverge))))"

text \<open>
  \<^verbatim>\<open>init_widget\<close> clears the whole widget (the cleared row object has the tag 0,
  \<^verbatim>\<open>PARENT_ROW\<close>, and a \<^verbatim>\<open>NULL\<close> pointer) and reads the row count out of the row at index
  \<^verbatim>\<open>UINT_MAX\<close>; if that row is not a count row, a pointer is read as the count.
\<close>

definition init_widget :: "env \<Rightarrow> machine \<Rightarrow> settings \<Rightarrow> machine outcome" where
  "init_widget e m s =
     (case row e s (- 1) of
        ROW_CNT cnt \<Rightarrow>
          reveal e
            (m\<lparr>settings := s, total_rows := cnt, first_visible := SETTINGS_LIST_ROWS,
               ro := PARENT_ROW None, row_w := 0, col := 0, editbox := zero_editbox,
               editing := False, value_w := []\<rparr>) 0
      | _ \<Rightarrow> Fault)"

section \<open>Navigator loop\<close>

definition draw_title_row :: "env \<Rightarrow> settings \<Rightarrow> curses_call list" where
  "draw_title_row e s =
     (let nm = settings_name e s
      in clearmsg TITLE_ROW @ [Attron_bold]
         @ msg e TITLE_ROW (''gPXE '' @ nm @ (if nm \<noteq> [] then '' '' else nm)
                            @ ''option configuration console'')
         @ [Attroff_bold])"

definition draw_info_row :: "env \<Rightarrow> row_object \<Rightarrow> curses_call list outcome" where
  "draw_info_row e r =
     (case r of
        PARENT_ROW p \<Rightarrow>
          Done (clearmsg INFO_ROW @ [Attron_bold] @ msg e INFO_ROW ''Enter - visit parent''
                @ [Attroff_bold])
      | CHILD_ROW c \<Rightarrow>
          Done (clearmsg INFO_ROW @ [Attron_bold] @ msg e INFO_ROW ''Enter - visit child''
                @ [Attroff_bold])
      | SETTING_ROW d \<Rightarrow>
          Done (clearmsg INFO_ROW @ [Attron_bold]
                @ msg e INFO_ROW (name d @ '' - '' @ description d) @ [Attroff_bold])
      | ROW_CNT cnt \<Rightarrow> Fault)"

definition draw_instruction_row :: "env \<Rightarrow> bool \<Rightarrow> curses_call list" where
  "draw_instruction_row e ed =
     clearmsg INSTRUCTION_ROW
     @ (if ed
        then msg e INSTRUCTION_ROW
               (''Enter - accept changes'' @ INSTRUCTION_PAD @ ''Ctrl-C - discard changes'')
        else msg e INSTRUCTION_ROW
               (''Ctrl-D - delete setting'' @ INSTRUCTION_PAD
                @ ''Ctrl-X - exit configuration utility''))"

definition draw_comment_row :: "env \<Rightarrow> machine \<Rightarrow> curses_call list" where
  "draw_comment_row e m =
     clearmsg COMMENT_ROW
     @ (case ro m of
          SETTING_ROW d \<Rightarrow>
            (if fetch_setting (store m) (settings m) d \<ge> 0
                \<and> fetch_setting_ex (store m) (settings m) d 0 < 0
             then msg e COMMENT_ROW ''[inherited from child scope]'' else [])
        | _ \<Rightarrow> [])"

text \<open>One turn of the loop either goes on or returns the next settings block.\<close>

datatype turn = Continue machine | Return "settings option" machine

definition continue :: "machine outcome \<Rightarrow> turn outcome" where
  "continue r = (case r of Done m \<Rightarrow> Done (Continue m) | Fault \<Rightarrow> Fault | Diverge \<Rightarrow> Diverge)"

text \<open>The key handling while editing (the first branch of the loop body).\<close>

definition editing_key :: "env \<Rightarrow> machine \<Rightarrow> int \<Rightarrow> turn outcome" where
  "editing_key e m key0 =
     (case edit_setting m key0 of
        (key, m1) \<Rightarrow>
          if key = CR \<or> key = LF
          then (case save_setting m1 of
                  Done (rc, st) \<Rightarrow>
                    (let m2 = m1\<lparr>store := st\<rparr>;
                         m3 = (if rc \<noteq> 0
                               then emit (alert e ('' Could not set ''
                                            @ (case ro m2 of SETTING_ROW d \<Rightarrow> name d | _ \<Rightarrow> [])
                                            @ '': '' @ strerror e rc @ '' '')) m2
                               else m2)
                     in continue (load_setting m3))
                | Fault \<Rightarrow> Fault
                | Diverge \<Rightarrow> Diverge)
          else if key = CTRL_C then continue (load_setting m1)
          else Done (Continue m1))"

text \<open>The code after the switch: the selection follows \<open>next\<close>.\<close>

definition follow :: "env \<Rightarrow> machine \<Rightarrow> u32 \<Rightarrow> turn outcome" where
  "follow e m next =
     (if next \<noteq> current m
      then (case select_setting e (draw_setting m) next of
              Done m' \<Rightarrow> Done (Continue (m'\<lparr>current := next\<rparr>))
            | Fault \<Rightarrow> Fault
            | Diverge \<Rightarrow> Diverge)
      else Done (Continue m))"

text \<open>The default case of the switch: edit an editable setting, refuse anything else.\<close>

definition default_key :: "env \<Rightarrow> machine \<Rightarrow> int \<Rightarrow> machine" where
  "default_key e m key =
     (case ro m of
        SETTING_ROW d \<Rightarrow>
          (if \<not> TAG_READONLY e (tag d) then snd (edit_setting m key)
           else emit (alert e '' read only '') m)
      | _ \<Rightarrow> emit (alert e '' read only '') m)"

text \<open>The key handling while not editing (the second branch of the loop body).\<close>

definition viewing_key :: "env \<Rightarrow> machine \<Rightarrow> int \<Rightarrow> turn outcome" where
  "viewing_key e m key =
     (let next = current m
      in if key = KEY_DOWN
         then (if next < total_rows m - 1
               then (case reveal e m (next + 1) of
                       Done m' \<Rightarrow> follow e m' (next + 1)
                     | Fault \<Rightarrow> Fault
                     | Diverge \<Rightarrow> Diverge)
               else follow e m next)
         else if key = KEY_UP
         then (if next > 0
               then (case reveal e m (next - 1) of
                       Done m' \<Rightarrow> follow e m' (next - 1)
                     | Fault \<Rightarrow> Fault
                     | Diverge \<Rightarrow> Diverge)
               else follow e m next)
         else if key = CTRL_D
         then (case ro m of
                 SETTING_ROW d \<Rightarrow>
                   (case select_setting e
                           (m\<lparr>store := delete_setting (store m) (settings m) d\<rparr>) next of
                      Done m' \<Rightarrow> follow e (draw_setting m') next
                    | Fault \<Rightarrow> Fault
                    | Diverge \<Rightarrow> Diverge)
               | _ \<Rightarrow> follow e (emit (alert e '' read only '') m) next)
         else if key = CTRL_X then Done (Return None m)
         else if key = CR \<or> key = LF
         then (case ro m of
                 SETTING_ROW d \<Rightarrow> follow e (default_key e m key) next
               | PARENT_ROW p \<Rightarrow> Done (Return p m)
               | CHILD_ROW c \<Rightarrow> Done (Return c m)
               | ROW_CNT cnt \<Rightarrow> (if cnt = 0 then Done (Return None m) else Fault))
         else follow e (default_key e m key) next)"

text \<open>
  One turn of the loop: redraw the information, instruction and comment rows and the
  current setting, read a key, handle it.
\<close>

definition redraw :: "env \<Rightarrow> machine \<Rightarrow> machine outcome" where
  "redraw e m =
     (case draw_info_row e (ro m) of
        Done info \<Rightarrow>
          (let m1 = emit (info @ draw_instruction_row e (editing m) @ draw_comment_row e m
                          @ [Color_set (if editing m then CPAIR_EDIT else CPAIR_SELECT)]) m
           in Done (emit [Color_set CPAIR_NORMAL] (draw_setting m1)))
      | Fault \<Rightarrow> Fault
      | Diverge \<Rightarrow> Diverge)"

definition main_loop_step :: "env \<Rightarrow> machine \<Rightarrow> int \<Rightarrow> turn outcome" where
  "main_loop_step e m key =
     (case redraw e m of
        Done m2 \<Rightarrow> (if editing m2 then editing_key e m2 key else viewing_key e m2 key)
      | Fault \<Rightarrow> Fault
      | Diverge \<Rightarrow> Diverge)"

text \<open>
  Entry into \<^verbatim>\<open>main_loop\<close>: the title row, the normal colours and the widget, with the
  selection \<^verbatim>\<open>current\<close> at 0. The store and the terminal are as the caller left them.
\<close>

definition main_loop_init ::
  "env \<Rightarrow> settings \<Rightarrow> settings_store \<Rightarrow> curses_call list \<Rightarrow> machine outcome" where
  "main_loop_init e s st scr =
     init_widget e
       \<lparr>settings = s, total_rows = 0, first_visible = 0, ro = PARENT_ROW None, row_w = 0,
        col = 0, editbox = zero_editbox, editing = False, value_w = [], current = 0,
        store = st, screen = scr @ draw_title_row e s @ [Color_set CPAIR_NORMAL]\<rparr> s"

text \<open>
  The loop on a stream of keys. With no key left the loop waits in \<^verbatim>\<open>getkey\<close>
  (\<open>Waiting\<close>); otherwise it returns the next settings block and the keys not yet read.
\<close>

datatype loop_end = Waiting machine | Returned "settings option" machine "int list"

fun main_loop_run :: "env \<Rightarrow> machine \<Rightarrow> int list \<Rightarrow> loop_end outcome" where
  "main_loop_run e m [] = Done (Waiting m)"
| "main_loop_run e m (key # keys) =
     (case main_loop_step e m key of
        Done (Continue m') \<Rightarrow> main_loop_run e m' keys
      | Done (Return next m') \<Rightarrow> Done (Returned next m' keys)
      | Fault \<Rightarrow> Fault
      | Diverge \<Rightarrow> Diverge)"

definition main_loop ::
  "env \<Rightarrow> settings \<Rightarrow> settings_store \<Rightarrow> curses_call list \<Rightarrow> int list \<Rightarrow> loop_end outcome" where
  "main_loop e s st scr keys =
     (case main_loop_init e s st scr of
        Done m \<Rightarrow> main_loop_run e m keys
      | Fault \<Rightarrow> Fault
      | Diverge \<Rightarrow> Diverge)"

section \<open>Session entry point\<close>

lemma main_loop_run_shorter:
  "main_loop_run e m keys = Done (Returned next m' keys') \<Longrightarrow> length keys' < length keys"
proof (induction keys arbitrary: m)
  case Nil
  then show ?case by simp
next
  case (Cons key keys)
  then show ?case
    by (fastforce split: outcome.splits turn.splits)
qed

lemma main_loop_shorter:
  "main_loop e s st scr keys = Done (Returned next m' keys') \<Longrightarrow> length keys' < length keys"
  by (auto simp: main_loop_def split: outcome.splits dest: main_loop_run_shorter)

text \<open>
  \<^verbatim>\<open>settings_ui\<close> sets the terminal up and calls \<^verbatim>\<open>main_loop\<close> again on every settings
  block it returns, until it returns \<^verbatim>\<open>NULL\<close>; then it ends the terminal session and
  returns 0.
\<close>

datatype ui_end =
    Ui_waiting machine
  | Ui_returned int settings_store "curses_call list" "int list"

function settings_ui_loop ::
  "env \<Rightarrow> settings \<Rightarrow> settings_store \<Rightarrow> curses_call list \<Rightarrow> int list \<Rightarrow> ui_end outcome" where
  "settings_ui_loop e s st scr keys =
     (case main_loop e s st scr keys of
        Done (Waiting m) \<Rightarrow> Done (Ui_waiting m)
      | Done (Returned next m keys') \<Rightarrow>
          (case next of
             Some s' \<Rightarrow> settings_ui_loop e s' (store m) (screen m) keys'
           | None \<Rightarrow> Done (Ui_returned 0 (store m) (screen m @ [Endwin]) keys'))
      | Fault \<Rightarrow> Fault
      | Diverge \<Rightarrow> Diverge)"
  by pat_completeness auto
termination
  by (relation "measure (\<lambda>(e, s, st, scr, keys). length keys)")
     (auto dest: main_loop_shorter)

declare settings_ui_loop.simps [simp del]

definition settings_ui ::
  "env \<Rightarrow> settings \<Rightarrow> settings_store \<Rightarrow> int list \<Rightarrow> ui_end outcome" where
  "settings_ui e s st keys =
     settings_ui_loop e s st
       [Initscr, Start_color,
        Init_pair CPAIR_NORMAL COLOR_WHITE COLOR_BLUE,
        Init_pair CPAIR_SELECT COLOR_WHITE COLOR_RED,
        Init_pair CPAIR_EDIT COLOR_BLACK COLOR_CYAN,
        Init_pair CPAIR_ALERT COLOR_WHITE COLOR_RED,
        Color_set CPAIR_NORMAL, Erase] keys"

text \<open>
  The states at the head of the loop of \<^verbatim>\<open>main_loop\<close> called on a scope: the state on
  entry, and the state after every turn that goes on.
\<close>

inductive loop_reachable :: "env \<Rightarrow> settings \<Rightarrow> machine \<Rightarrow> bool" where
  entry: "main_loop_init e s st scr = Done m \<Longrightarrow> loop_reachable e s m"
| turn: "loop_reachable e s m \<Longrightarrow> main_loop_step e m key = Done (Continue m') \<Longrightarrow>
         loop_reachable e s m'"

text \<open>
  What holds at the head of the loop called on scope \<open>s\<close>: the widget is on \<open>s\<close>, its
  row count is the count that \<open>row\<close> reports, the window starts at a multiple of the
  page size, and only a setting row is ever being edited.
\<close>

definition loop_inv :: "env \<Rightarrow> settings \<Rightarrow> machine \<Rightarrow> bool" where
  "loop_inv e s m =
     (settings m = s \<and> row e s (- 1) = ROW_CNT (total_rows m) \<and>
      unat (first_visible m) mod 16 = 0 \<and>
      (if editing m then (case ro m of SETTING_ROW d \<Rightarrow> True | _ \<Rightarrow> False) else True))"

text \<open>
  The attempts that the loop refuses while not editing. On a parent or child row: the
  delete key, and every key that would start an edit (any key but the two arrow keys, the
  exit key and the confirm keys, which visit the scope). On a setting row whose tag is
  read-only: every key that would start an edit (any key but the arrow keys, the exit key
  and the delete key).
\<close>

definition refused_attempt :: "env \<Rightarrow> machine \<Rightarrow> int \<Rightarrow> bool" where
  "refused_attempt e m key =
     (\<not> editing m \<and> key \<noteq> KEY_DOWN \<and> key \<noteq> KEY_UP \<and> key \<noteq> CTRL_X \<and>
      (case ro m of
         PARENT_ROW p \<Rightarrow> key \<noteq> CR \<and> key \<noteq> LF
       | CHILD_ROW c \<Rightarrow> key \<noteq> CR \<and> key \<noteq> LF
       | SETTING_ROW d \<Rightarrow> TAG_READONLY e (tag d) \<and> key \<noteq> CTRL_D
       | ROW_CNT cnt \<Rightarrow> False))"

text \<open>
  The value buffer of the widget holds 256 characters, and \<^verbatim>\<open>load_setting\<close> copies the
  name of the scope behind a parent or child row into it with \<^verbatim>\<open>strncpy\<close>. The names
  fit when the parent's name and every child's name is shorter than the buffer.
\<close>

definition names_fit :: "settings \<Rightarrow> bool" where
  "names_fit s =
     ((case parent s of None \<Rightarrow> True | Some p \<Rightarrow> length (scope_name p) < 256) \<and>
      list_all (\<lambda>child. length (scope_name child) < 256) (children s))"

section \<open>An example tree and registry\<close>

text \<open>
  Scope X has the parent P and the children Y and Z. Of the registry, descriptor D has
  the tag type of Y, descriptor F that of Z, and descriptor E that of no block below X.
  Descriptor F is read-only. The empty scope has no parent, no child and no relevant
  descriptor. The store holds a value for D at X and refuses every string of more than
  four characters.
\<close>

definition setting_D :: setting where
  "setting_D = \<lparr>name = ''dd'', description = ''setting D'', tag = 0x101\<rparr>"

definition setting_F :: setting where
  "setting_F = \<lparr>name = ''ff'', description = ''setting F'', tag = 0x202\<rparr>"

definition example_env :: env where
  "example_env =
     \<lparr>SETTINGS = [setting_D, \<lparr>name = ''ee'', description = ''setting E'', tag = 0x501\<rparr>,
                  setting_F],
      TAG_TYPE = (\<lambda>t. drop_bit 8 t),
      TAG_READONLY = (\<lambda>t. t = 0x202),
      COLS = 80,
      strerror = (\<lambda>rc. ''Error''),
      settings_name = scope_name\<rparr>"

definition block_X :: block where
  "block_X = Block ''X'' 0 [Block ''Y'' 0x100 [], Block ''Z'' 0x200 []]"

definition scope_P :: settings where
  "scope_P = Settings None (Block [] 0x300 [block_X])"

definition scope_X :: settings where
  "scope_X = Settings (Some scope_P) block_X"

definition empty_scope :: settings where
  "empty_scope = Settings None (Block ''empty'' 0x900 [])"

definition example_store :: settings_store where
  "example_store =
     \<lparr>stored = (\<lambda>k. None)((scope_X, setting_D) \<mapsto> ''v0''),
      verdict = (\<lambda>s d v. if 4 < length v then 34 else 0)\<rparr>"

text \<open>A widget on X whose window starts at row 16, as \<^verbatim>\<open>init_widget\<close> leaves it for \<^verbatim>\<open>reveal\<close>.\<close>

definition example_widget :: machine where
  "example_widget =
     \<lparr>settings = scope_X, total_rows = 5, first_visible = 16, ro = PARENT_ROW None,
      row_w = 0, col = 0, editbox = zero_editbox, editing = False, value_w = [], current = 0,
      store = example_store, screen = []\<rparr>"

text \<open>
  A scope with twenty children and no setting, so with more rows than a page, and a
  widget on it whose window starts at a given row.
\<close>

definition wide_scope :: settings where
  "wide_scope = Settings None (Block ''W'' 0 (replicate 20 (Block ''c'' 0x700 [])))"

definition wide_widget :: "u32 \<Rightarrow> machine" where
  "wide_widget fv =
     \<lparr>settings = wide_scope, total_rows = 20, first_visible = fv, ro = PARENT_ROW None,
      row_w = 0, col = 0, editbox = zero_editbox, editing = False, value_w = [], current = 0,
      store = example_store, screen = []\<rparr>"

text \<open>
  The widget on the empty scope as \<^verbatim>\<open>init_widget\<close> and \<^verbatim>\<open>select_setting\<close> leave its fields
  when the read through the count row does no harm: the row count 0, the window at 0,
  the count row selected.
\<close>

definition empty_widget :: machine where
  "empty_widget =
     \<lparr>settings = empty_scope, total_rows = 0, first_visible = 0, ro = ROW_CNT 0,
      row_w = 3, col = 1, editbox = zero_editbox, editing = False, value_w = [], current = 0,
      store = example_store, screen = []\<rparr>"

section \<open>Properties of the row enumerator\<close>

lemma unat_succ_le:
  "unat (cnt::u32) \<le> unat n \<Longrightarrow> cnt \<noteq> n \<Longrightarrow>
   unat (cnt + 1) = Suc (unat cnt) \<and> Suc (unat cnt) \<le> unat n"
  by unat_arith

lemma unat_add_of_nat_le:
  "unat (cnt::u32) + k \<le> unat (n::u32) \<Longrightarrow> unat (cnt + of_nat k) = unat cnt + k"
proof -
  assume a: "unat cnt + k \<le> unat n"
  have "unat n < 2 ^ 32" using unsigned_less [of n] by simp
  with a have "unat cnt + k < 2 ^ LENGTH(32)" by simp
  then show ?thesis
    by (simp add: unat_word_ariths unat_of_nat take_bit_nat_eq_self_iff mod_less)
qed

lemma row_children_eq:
  "unat cnt \<le> unat n \<Longrightarrow>
   row_children cs cnt n =
     (if unat n - unat cnt < length cs
      then Inl (CHILD_ROW (Some (cs ! (unat n - unat cnt))))
      else Inr (cnt + of_nat (length cs)))"
proof (induction cs arbitrary: cnt)
  case Nil
  then show ?case by simp
next
  case (Cons c cs)
  show ?case
  proof (cases "cnt = n")
    case True
    then show ?thesis by simp
  next
    case False
    with Cons.prems have s: "unat (cnt + 1) = Suc (unat cnt)" "Suc (unat cnt) \<le> unat n"
      using unat_succ_le by blast+
    have "row_children (c # cs) cnt n = row_children cs (cnt + 1) n"
      using False by simp
    also have "\<dots> = (if unat n - unat (cnt + 1) < length cs
      then Inl (CHILD_ROW (Some (cs ! (unat n - unat (cnt + 1)))))
      else Inr (cnt + 1 + of_nat (length cs)))"
      using Cons.IH [of "cnt + 1"] s by simp
    also have "\<dots> = (if unat n - unat cnt < length (c # cs)
      then Inl (CHILD_ROW (Some ((c # cs) ! (unat n - unat cnt))))
      else Inr (cnt + of_nat (length (c # cs))))"
      using s by (auto simp: nth_Cons' Suc_diff_Suc algebra_simps)
    finally show ?thesis .
  qed
qed

lemma row_settings_eq:
  "unat cnt \<le> unat n \<Longrightarrow>
   row_settings e s ds cnt n =
     (if unat n - unat cnt < length (filter (relevant e s) ds)
      then Inl (SETTING_ROW (filter (relevant e s) ds ! (unat n - unat cnt)))
      else Inr (cnt + of_nat (length (filter (relevant e s) ds))))"
proof (induction ds arbitrary: cnt)
  case Nil
  then show ?case by simp
next
  case (Cons d ds)
  show ?case
  proof (cases "relevant e s d \<and> cnt \<noteq> n")
    case False
    then show ?thesis using Cons by auto
  next
    case True
    with Cons.prems have s: "unat (cnt + 1) = Suc (unat cnt)" "Suc (unat cnt) \<le> unat n"
      using unat_succ_le by blast+
    have "row_settings e s (d # ds) cnt n = row_settings e s ds (cnt + 1) n"
      using True by simp
    also have "\<dots> = (if unat n - unat (cnt + 1) < length (filter (relevant e s) ds)
      then Inl (SETTING_ROW (filter (relevant e s) ds ! (unat n - unat (cnt + 1))))
      else Inr (cnt + 1 + of_nat (length (filter (relevant e s) ds))))"
      using Cons.IH [of "cnt + 1"] s by simp
    also have "\<dots> = (if unat n - unat cnt < length (filter (relevant e s) (d # ds))
      then Inl (SETTING_ROW (filter (relevant e s) (d # ds) ! (unat n - unat cnt)))
      else Inr (cnt + of_nat (length (filter (relevant e s) (d # ds)))))"
      using s True by (auto simp: nth_Cons' Suc_diff_Suc algebra_simps)
    finally show ?thesis .
  qed
qed

lemma relevant_subtree: "relevant e s d = relevant_in_subtree e s d"
  unfolding relevant_in_subtree_def
proof (induction e s d rule: relevant.induct)
  case (1 e s d)
  show ?case
  proof (cases "TAG_TYPE e (tag d) = TAG_TYPE e (tag_magic s)")
    case True
    then show ?thesis
      by (subst relevant.simps, subst subtree.simps) auto
  next
    case False
    then show ?thesis
      using 1 by (subst relevant.simps, subst subtree.simps) (auto simp: list_ex_iff)
  qed
qed

lemma row_from_children:
  fixes cnt n cs e s ds
  assumes "unat cnt \<le> unat n"
  shows "(case row_children cs cnt n of
            Inl r \<Rightarrow> r
          | Inr cnt2 \<Rightarrow>
              (case row_settings e s ds cnt2 n of
                 Inl r \<Rightarrow> r
               | Inr cnt3 \<Rightarrow> ROW_CNT cnt3)) =
         (let rows = map (\<lambda>c. CHILD_ROW (Some c)) cs @ map SETTING_ROW (filter (relevant e s) ds)
          in if unat n - unat cnt < length rows then rows ! (unat n - unat cnt)
             else ROW_CNT (cnt + of_nat (length rows)))"
proof (cases "unat n - unat cnt < length cs")
  case True
  then show ?thesis
    using assms by (simp add: row_children_eq Let_def nth_append)
next
  case False
  then have le: "unat cnt + length cs \<le> unat n" using assms by simp
  then have u: "unat (cnt + of_nat (length cs)) = unat cnt + length cs"
    by (rule unat_add_of_nat_le)
  have c: "row_children cs cnt n = Inr (cnt + of_nat (length cs))"
    using False assms by (simp add: row_children_eq)
  have st: "row_settings e s ds (cnt + of_nat (length cs)) n =
     (if unat n - (unat cnt + length cs) < length (filter (relevant e s) ds)
      then Inl (SETTING_ROW (filter (relevant e s) ds ! (unat n - (unat cnt + length cs))))
      else Inr (cnt + of_nat (length cs) + of_nat (length (filter (relevant e s) ds))))"
    using row_settings_eq [of "cnt + of_nat (length cs)" n e s ds] le u by simp
  show ?thesis
    using False le by (auto simp: c st Let_def nth_append algebra_simps)
qed

lemma row_eq_canonical:
  "row e s n =
     (if unat n < length (canonical_rows e s)
      then canonical_rows e s ! unat n
      else ROW_CNT (of_nat (length (canonical_rows e s))))"
proof -
  have f: "filter (relevant_in_subtree e s) (SETTINGS e) = filter (relevant e s) (SETTINGS e)"
    by (rule filter_cong) (simp_all add: relevant_subtree)
  show ?thesis
  proof (cases "parent s")
    case None
    then show ?thesis
      using row_from_children [where cnt = 0 and n = n and cs = "children s" and e = e
          and s = s and ds = "SETTINGS e"]
      by (simp add: row_def row_parent_def canonical_rows_def Let_def f)
  next
    case (Some p)
    show ?thesis
    proof (cases "n = 0")
      case True
      then show ?thesis using Some
        by (simp add: row_def row_parent_def canonical_rows_def)
    next
      case False
      then have "unat n \<noteq> 0" by (simp add: unat_eq_0)
      then have n: "unat (1::u32) \<le> unat n" "unat n - unat (1::u32) = unat n - 1" "0 < unat n"
        by simp_all
      show ?thesis
        using row_from_children [where cnt = 1 and n = n and cs = "children s" and e = e
            and s = s and ds = "SETTINGS e"] Some False n
        by (auto simp: row_def row_parent_def canonical_rows_def Let_def nth_Cons' algebra_simps f)
    qed
  qed
qed

lemma canonical_rows_count:
  "length (canonical_rows e s) \<le> unat (n::u32) \<Longrightarrow>
   unat (of_nat (length (canonical_rows e s)) :: u32) = length (canonical_rows e s)"
  using unat_add_of_nat_le [of 0 "length (canonical_rows e s)" n] by simp

text \<open>
  Claim C1. For every scope and index, \<open>row\<close> returns the row of that index in the
  canonical order: the parent row at index 0 exactly when the scope has a parent, then
  the child rows in the order of the child list, then the setting rows of the relevant
  descriptors in the order of the registry, where a descriptor is relevant when its tag
  type is that of a block of the scope's subtree. From the true row count on, it returns
  a count row carrying the true row count.
\<close>

theorem row_canonical:
  "(unat n < length (canonical_rows e s) \<longrightarrow> row e s n = canonical_rows e s ! unat n) \<and>
   (length (canonical_rows e s) \<le> unat n \<longrightarrow>
      (\<exists>c. row e s n = ROW_CNT c \<and> unat c = length (canonical_rows e s))) \<and>
   ((\<exists>p. row e s 0 = PARENT_ROW p) = (parent s \<noteq> None))"
proof (intro conjI impI)
  assume "unat n < length (canonical_rows e s)"
  then show "row e s n = canonical_rows e s ! unat n"
    by (simp add: row_eq_canonical)
next
  assume a: "length (canonical_rows e s) \<le> unat n"
  then have "row e s n = ROW_CNT (of_nat (length (canonical_rows e s)))"
    by (simp add: row_eq_canonical)
  with canonical_rows_count [OF a]
  show "\<exists>c. row e s n = ROW_CNT c \<and> unat c = length (canonical_rows e s)"
    by blast
next
  show "(\<exists>p. row e s 0 = PARENT_ROW p) = (parent s \<noteq> None)"
    by (cases "parent s"; cases "children s"; cases "filter (relevant_in_subtree e s) (SETTINGS e)")
       (auto simp: row_eq_canonical canonical_rows_def)
qed

theorem row_canonical_witness:
  "row example_env scope_X 0 = PARENT_ROW (Some scope_P) \<and>
   row example_env scope_X 1 = CHILD_ROW (Some (Settings (Some scope_X) (Block ''Y'' 0x100 []))) \<and>
   row example_env scope_X 2 = CHILD_ROW (Some (Settings (Some scope_X) (Block ''Z'' 0x200 []))) \<and>
   row example_env scope_X 3 = SETTING_ROW setting_D \<and>
   row example_env scope_X 4 = SETTING_ROW setting_F \<and>
   (\<exists>c. row example_env scope_X 9 = ROW_CNT c \<and> unat c = 5)"
proof -
  have rows: "canonical_rows example_env scope_X =
     [PARENT_ROW (Some scope_P),
      CHILD_ROW (Some (Settings (Some scope_X) (Block ''Y'' 0x100 []))),
      CHILD_ROW (Some (Settings (Some scope_X) (Block ''Z'' 0x200 []))),
      SETTING_ROW setting_D, SETTING_ROW setting_F]"
    by (simp add: canonical_rows_def relevant_in_subtree_def example_env_def children_def
        tag_magic_def subtree.simps scope_X_def block_X_def drop_bit_eq_div
        setting_D_def setting_F_def)
  have len: "length (canonical_rows example_env scope_X) = 5"
    by (simp add: rows)
  have nth: "canonical_rows example_env scope_X ! 0 = PARENT_ROW (Some scope_P)"
    "canonical_rows example_env scope_X ! Suc 0 =
       CHILD_ROW (Some (Settings (Some scope_X) (Block ''Y'' 0x100 [])))"
    "canonical_rows example_env scope_X ! 2 =
       CHILD_ROW (Some (Settings (Some scope_X) (Block ''Z'' 0x200 [])))"
    "canonical_rows example_env scope_X ! 3 = SETTING_ROW setting_D"
    "canonical_rows example_env scope_X ! 4 = SETTING_ROW setting_F"
    by (simp_all add: rows)
  show ?thesis
    using row_canonical [of 0 example_env scope_X] row_canonical [of 1 example_env scope_X]
      row_canonical [of 2 example_env scope_X] row_canonical [of 3 example_env scope_X]
      row_canonical [of 4 example_env scope_X] row_canonical [of 9 example_env scope_X]
    by (simp add: len nth)
qed

section \<open>Properties of the scroll window\<close>

lemma on_screen_iff:
  assumes "unat fv < 2 ^ 32 - 16"
  shows "on_screen fv n = (unat fv \<le> unat n \<and> unat n < unat fv + 16)"
proof -
  have n: "unat n < 2 ^ 32" using unsigned_less [of n] by simp
  show ?thesis
  proof (cases "fv \<le> n")
    case True
    then have "unat (n - fv) = unat n - unat fv" by (simp add: unat_sub)
    with True show ?thesis
      by (auto simp: on_screen_def word_less_nat_alt word_le_nat_alt)
  next
    case False
    then have lt: "unat n < unat fv" by (simp add: word_le_nat_alt)
    have "unat (n - fv) = (unat n + 2 ^ 32 - unat fv) mod 2 ^ 32"
      using lt n by (simp add: unat_sub_if' )
    also have "\<dots> = unat n + 2 ^ 32 - unat fv"
      using lt n by simp
    finally have "unat (n - fv) = unat n + 2 ^ 32 - unat fv" .
    with lt assms show ?thesis
      by (auto simp: on_screen_def word_less_nat_alt)
  qed
qed

lemma scroll_forward_ge:
  assumes "scroll_forward fv n = Some r"
  shows "n \<le> r"
proof (rule scroll_forward.raw_induct [where P = "\<lambda>fv n r. n \<le> r", OF _ assms])
  fix f :: "u32 \<Rightarrow> u32 \<Rightarrow> u32 option" and fv n r
  assume ih: "\<And>fv n r. f fv n = Some r \<Longrightarrow> n \<le> r"
    and eq: "(if fv < n then f (fv + 16) n else Some fv) = Some r"
  show "n \<le> r"
    using ih eq by (auto split: if_splits)
qed

lemma scroll_back_spec:
  assumes "scroll_back fv n = Some r"
  shows "r \<le> n \<and> (n \<le> fv \<longrightarrow> on_screen r n) \<and> (fv \<le> n \<longrightarrow> r = fv)"
proof (rule scroll_back.raw_induct
    [where P = "\<lambda>fv n r. r \<le> n \<and> (n \<le> fv \<longrightarrow> on_screen r n) \<and> (fv \<le> n \<longrightarrow> r = fv)", OF _ assms])
  fix f :: "u32 \<Rightarrow> u32 \<Rightarrow> u32 option" and fv n r
  assume ih: "\<And>fv n r. f fv n = Some r \<Longrightarrow>
      r \<le> n \<and> (n \<le> fv \<longrightarrow> on_screen r n) \<and> (fv \<le> n \<longrightarrow> r = fv)"
    and eq: "(if n < fv then f (fv - 16) n else Some fv) = Some r"
  show "r \<le> n \<and> (n \<le> fv \<longrightarrow> on_screen r n) \<and> (fv \<le> n \<longrightarrow> r = fv)"
  proof (cases "n < fv")
    case False
    with eq have "r = fv" by simp
    with False show ?thesis by (auto simp: on_screen_def)
  next
    case True
    with eq have "f (fv - 16) n = Some r" by simp
    from ih [OF this] have ih': "r \<le> n" "n \<le> fv - 16 \<Longrightarrow> on_screen r n" "fv - 16 \<le> n \<Longrightarrow> r = fv - 16"
      by auto
    have "on_screen r n"
    proof (cases "n \<le> fv - 16")
      case True
      then show ?thesis by (rule ih'(2))
    next
      case False
      then have le: "fv - 16 \<le> n" by simp
      then have r: "r = fv - 16" by (rule ih'(3))
      have "n - (fv - 16) < 16" using le True by unat_arith
      then show ?thesis by (simp add: on_screen_def r)
    qed
    with ih'(1) True show ?thesis by auto
  qed
qed

lemma unat_add16_mod: "unat ((x::u32) + 16) mod 16 = unat x mod 16"
  by (simp only: unat_word_ariths) (simp add: mod_mod_cancel)

lemma unat_sub16_mod: "unat ((x::u32) - 16) mod 16 = unat x mod 16"
  using unat_add16_mod [of "x - 16"] by simp

lemma scroll_forward_mod:
  assumes "scroll_forward fv n = Some r"
  shows "unat r mod 16 = unat fv mod 16"
proof (rule scroll_forward.raw_induct [where P = "\<lambda>fv n r. unat r mod 16 = unat fv mod 16", OF _ assms])
  fix f :: "u32 \<Rightarrow> u32 \<Rightarrow> u32 option" and fv n r
  assume ih: "\<And>fv n r. f fv n = Some r \<Longrightarrow> unat r mod 16 = unat fv mod 16"
    and eq: "(if fv < n then f (fv + 16) n else Some fv) = Some r"
  show "unat r mod 16 = unat fv mod 16"
    using ih [of "fv + 16" n r] eq by (auto simp: unat_add16_mod split: if_splits)
qed

lemma scroll_back_mod:
  assumes "scroll_back fv n = Some r"
  shows "unat r mod 16 = unat fv mod 16"
proof (rule scroll_back.raw_induct [where P = "\<lambda>fv n r. unat r mod 16 = unat fv mod 16", OF _ assms])
  fix f :: "u32 \<Rightarrow> u32 \<Rightarrow> u32 option" and fv n r
  assume ih: "\<And>fv n r. f fv n = Some r \<Longrightarrow> unat r mod 16 = unat fv mod 16"
    and eq: "(if n < fv then f (fv - 16) n else Some fv) = Some r"
  show "unat r mod 16 = unat fv mod 16"
    using ih [of "fv - 16" n r] eq by (auto simp: unat_sub16_mod split: if_splits)
qed

lemma scroll_forward_returns:
  assumes "unat n \<le> 2 ^ 32 - 16"
  shows "\<exists>r. scroll_forward fv n = Some r"
proof (induction "unat n - unat fv" arbitrary: fv rule: less_induct)
  case less
  show ?case
  proof (cases "fv < n")
    case False
    then show ?thesis by (subst scroll_forward.simps) simp
  next
    case True
    then have lt: "unat fv < unat n" by (simp add: word_less_nat_alt)
    with assms have "unat fv + 16 < 2 ^ 32" by simp
    then have "unat (fv + 16) = unat fv + 16"
      by (simp add: unat_word_ariths)
    with lt have "unat n - unat (fv + 16) < unat n - unat fv" by simp
    from less [OF this] obtain r where "scroll_forward (fv + 16) n = Some r" by blast
    with True show ?thesis by (subst scroll_forward.simps) simp
  qed
qed

lemma scroll_back_returns:
  assumes "unat fv mod 16 = 0"
  shows "\<exists>r. scroll_back fv n = Some r"
  using assms
proof (induction "unat fv" arbitrary: fv rule: less_induct)
  case less
  show ?case
  proof (cases "n < fv")
    case False
    then show ?thesis by (subst scroll_back.simps) simp
  next
    case True
    then have "0 < unat fv" by (simp add: word_less_nat_alt)
    with less.prems have ge: "16 \<le> unat fv" by presburger
    then have u: "unat (fv - 16) = unat fv - 16"
      by (simp add: unat_sub word_le_nat_alt)
    with ge have a: "unat (fv - 16) < unat fv" by simp
    have b: "unat (fv - 16) mod 16 = 0"
      using less.prems by (simp add: unat_sub16_mod)
    from less.hyps [OF a b] obtain r where "scroll_back (fv - 16) n = Some r" ..
    with True show ?thesis by (subst scroll_back.simps) simp
  qed
qed

subsection \<open>What the widget operations keep\<close>

lemma load_setting_fields:
  "load_setting m = Done m' \<Longrightarrow>
   settings m' = settings m \<and> total_rows m' = total_rows m \<and>
   first_visible m' = first_visible m \<and> ro m' = ro m \<and> row_w m' = row_w m \<and>
   col m' = col m \<and> current m' = current m \<and> store m' = store m \<and>
   screen m' = screen m \<and> \<not> editing m'"
  by (auto simp: load_setting_def Let_def split: outcome.splits row_object.splits option.splits)

lemma load_setting_returns: "load_setting m \<noteq> Diverge"
  by (auto simp: load_setting_def Let_def strncpy_value_def
      split: outcome.splits row_object.splits option.splits)

lemma select_setting_fields:
  "select_setting e m i = Done m' \<Longrightarrow>
   settings m' = settings m \<and> total_rows m' = total_rows m \<and>
   first_visible m' = first_visible m \<and> ro m' = row e (settings m) i \<and>
   current m' = current m \<and> store m' = store m \<and> screen m' = screen m \<and> \<not> editing m'"
  by (auto simp: select_setting_def dest!: load_setting_fields)

lemma select_setting_returns: "select_setting e m i \<noteq> Diverge"
  by (simp add: select_setting_def load_setting_returns)

lemma emit_fields [simp]:
  "settings (emit c m) = settings m" "total_rows (emit c m) = total_rows m"
  "first_visible (emit c m) = first_visible m" "ro (emit c m) = ro m"
  "row_w (emit c m) = row_w m" "col (emit c m) = col m" "editbox (emit c m) = editbox m"
  "editing (emit c m) = editing m" "value_w (emit c m) = value_w m"
  "current (emit c m) = current m" "store (emit c m) = store m"
  "screen (emit c m) = screen m @ c"
  by (simp_all add: emit_def)

lemma draw_setting_fields [simp]:
  "settings (draw_setting m) = settings m" "total_rows (draw_setting m) = total_rows m"
  "first_visible (draw_setting m) = first_visible m" "ro (draw_setting m) = ro m"
  "row_w (draw_setting m) = row_w m" "col (draw_setting m) = col m"
  "editbox (draw_setting m) = editbox m"
  "editing (draw_setting m) = editing m" "value_w (draw_setting m) = value_w m"
  "current (draw_setting m) = current m" "store (draw_setting m) = store m"
  by (simp_all add: draw_setting_def Let_def)

lemma edit_setting_fields:
  "edit_setting m key = (key', m') \<Longrightarrow>
   settings m' = settings m \<and> total_rows m' = total_rows m \<and>
   first_visible m' = first_visible m \<and> ro m' = ro m \<and> row_w m' = row_w m \<and>
   col m' = col m \<and> current m' = current m \<and> store m' = store m \<and>
   screen m' = screen m \<and> editing m'"
  by (auto simp: edit_setting_def split: prod.splits)

lemma draw_visible_fields:
  "draw_visible e i m = Done m' \<Longrightarrow>
   settings m' = settings m \<and> total_rows m' = total_rows m \<and>
   first_visible m' = first_visible m \<and> current m' = current m \<and> store m' = store m"
proof (induction e i m rule: draw_visible.induct)
  case (1 e i m)
  show ?case
  proof (cases "i < 16")
    case False
    with "1.prems" show ?thesis by (simp add: draw_visible.simps)
  next
    case lt: True
    show ?thesis
    proof (cases "first_visible m + i < total_rows m")
      case False
      with lt "1.prems" have "draw_visible e (i + 1) (emit (clearmsg (3 + i)) m) = Done m'"
        by (simp add: draw_visible.simps [of e i m])
      from "1.IH"(2) [OF lt False this] show ?thesis by simp
    next
      case True
      with lt "1.prems" obtain m1 where
        s: "select_setting e m (first_visible m + i) = Done m1" and
        d: "draw_visible e (i + 1) (draw_setting m1) = Done m'"
        by (auto simp: draw_visible.simps [of e i m] split: outcome.splits)
      from "1.IH"(1) [OF lt True s d] select_setting_fields [OF s]
      show ?thesis by simp
    qed
  qed
qed

lemma draw_visible_returns: "draw_visible e i m \<noteq> Diverge"
proof (induction e i m rule: draw_visible.induct)
  case (1 e i m)
  show ?case
    using 1 select_setting_returns [of e m "first_visible m + i"]
    by (subst draw_visible.simps) (auto split: outcome.splits)
qed

lemma reveal_on_screen: "on_screen (first_visible m) n \<Longrightarrow> reveal e m n = Done m"
  by (simp add: reveal_def)

lemma reveal_fields:
  assumes "reveal e m n = Done m'"
  shows "settings m' = settings m \<and> total_rows m' = total_rows m \<and>
         current m' = current m \<and> store m' = store m \<and>
         on_screen (first_visible m') n \<and>
         unat (first_visible m') mod 16 = unat (first_visible m) mod 16 \<and>
         (\<not> on_screen (first_visible m) n \<longrightarrow> ro m' = row e (settings m) n \<and> \<not> editing m')"
proof (cases "on_screen (first_visible m) n")
  case True
  with assms show ?thesis by (simp add: reveal_def)
next
  case False
  with assms obtain fv1 fv2 m3 where
    f: "scroll_forward (first_visible m) n = Some fv1" and
    b: "scroll_back fv1 n = Some fv2" and
    d: "draw_visible e 0
          (emit [Mvaddstr (3 - 1) (1 + 1) (if fv2 > 0 then ''...'' else ''   ''),
                 Mvaddstr (3 + 16) (1 + 1)
                   (if fv2 + 16 < total_rows m then ''...'' else ''   '')]
             (m\<lparr>first_visible := fv2\<rparr>)) = Done m3" and
    s: "select_setting e m3 n = Done m'"
    by (auto simp: reveal_def Let_def split: option.splits outcome.splits)
  from scroll_forward_ge [OF f] scroll_back_spec [OF b] have os: "on_screen fv2 n" by simp
  from scroll_forward_mod [OF f] scroll_back_mod [OF b]
  have md: "unat fv2 mod 16 = unat (first_visible m) mod 16" by simp
  from draw_visible_fields [OF d] select_setting_fields [OF s] os md False
  show ?thesis by simp
qed

lemma reveal_returns:
  assumes "unat (first_visible m) mod 16 = 0" and "unat n \<le> 2 ^ 32 - 16"
  shows "reveal e m n \<noteq> Diverge"
proof -
  from scroll_forward_returns [OF assms(2)] obtain fv1 where
    f: "scroll_forward (first_visible m) n = Some fv1" by blast
  from scroll_forward_mod [OF f] assms(1) have "unat fv1 mod 16 = 0" by simp
  from scroll_back_returns [OF this] obtain fv2 where b: "scroll_back fv1 n = Some fv2" by blast
  show ?thesis
    using f b draw_visible_returns select_setting_returns
    by (auto simp: reveal_def Let_def split: outcome.splits)
qed

subsection \<open>Idempotence of the scroll\<close>

text \<open>
  Claim C7. \<open>reveal\<close> is idempotent, for every widget state and index: two calls in a
  row with the same index behave as one. When a call returns, a second call with the
  same index returns the very same state (the same window and selection, and nothing
  more drawn), because the index lies in the window after the first call. A call
  returns whenever the first visible index is a multiple of 16 and the index is at most
  \<open>2 ^ 32 - 16\<close>.
\<close>

theorem reveal_idempotent:
  "(case reveal e m n of Done m' \<Rightarrow> reveal e m' n | Fault \<Rightarrow> Fault | Diverge \<Rightarrow> Diverge)
     = reveal e m n \<and>
   (reveal e m n = Done m' \<longrightarrow>
      reveal e m' n = Done m' \<and> on_screen (first_visible m') n) \<and>
   (unat (first_visible m) mod 16 = 0 \<and> unat n \<le> 2 ^ 32 - 16 \<longrightarrow>
      reveal e m n \<noteq> Diverge)"
proof (intro conjI impI)
  show "(case reveal e m n of Done m' \<Rightarrow> reveal e m' n | Fault \<Rightarrow> Fault | Diverge \<Rightarrow> Diverge)
     = reveal e m n"
    by (auto split: outcome.splits dest!: reveal_fields simp: reveal_on_screen)
next
  assume r: "reveal e m n = Done m'"
  from reveal_fields [OF r] show "on_screen (first_visible m') n" by simp
  then show "reveal e m' n = Done m'" by (rule reveal_on_screen)
next
  assume "unat (first_visible m) mod 16 = 0 \<and> unat n \<le> 2 ^ 32 - 16"
  then show "reveal e m n \<noteq> Diverge" by (simp add: reveal_returns)
qed

theorem reveal_idempotent_witness:
  "(case reveal example_env example_widget 0 of
      Done m' \<Rightarrow> first_visible m' = 0 \<and> ro m' = PARENT_ROW (Some scope_P) \<and>
                 screen m' \<noteq> [] \<and> reveal example_env m' 0 = Done m'
    | _ \<Rightarrow> False)"
proof -
  have "(case reveal example_env example_widget 0 of
      Done m' \<Rightarrow> first_visible m' = 0 \<and> ro m' = PARENT_ROW (Some scope_P) \<and> screen m' \<noteq> []
    | _ \<Rightarrow> False)"
    by code_simp
  then obtain m' where r: "reveal example_env example_widget 0 = Done m'"
    and f: "first_visible m' = 0" "ro m' = PARENT_ROW (Some scope_P)" "screen m' \<noteq> []"
    by (auto split: outcome.splits)
  from reveal_idempotent [where e = example_env and m = example_widget and n = 0 and m' = m'] r
  have "reveal example_env m' 0 = Done m'" by simp
  with r f show ?thesis by simp
qed

section \<open>Properties of the navigator loop\<close>

lemma emit_emit: "emit c2 (emit c1 m) = emit (c1 @ c2) m"
  by (simp add: emit_def)

lemma emit_Nil: "emit [] m = m"
  by (simp add: emit_def)

lemma draw_setting_emit: "\<exists>c. draw_setting m = emit c m"
  by (simp add: draw_setting_def Let_def) blast

lemma redraw_emit: "redraw e m = Done m2 \<Longrightarrow> \<exists>c. m2 = emit c m"
proof -
  assume r: "redraw e m = Done m2"
  then obtain info where i: "draw_info_row e (ro m) = Done info"
    by (auto simp: redraw_def split: outcome.splits)
  define m1 where "m1 = emit (info @ draw_instruction_row e (editing m) @ draw_comment_row e m
                          @ [Color_set (if editing m then 3 else 2)]) m"
  obtain c where c: "draw_setting m1 = emit c m1" using draw_setting_emit by blast
  from r i have "m2 = emit [Color_set 1] (draw_setting m1)"
    by (simp add: redraw_def m1_def Let_def)
  then have "m2 = emit [Color_set 1] (emit c m1)" by (simp add: c)
  then show ?thesis
    unfolding m1_def emit_emit by blast
qed

lemma redraw_Done:
  "(\<And>cnt. ro m \<noteq> ROW_CNT cnt) \<Longrightarrow> \<exists>m2. redraw e m = Done m2"
  by (cases "ro m") (auto simp: redraw_def draw_info_row_def Let_def)

lemma redraw_returns: "redraw e m \<noteq> Diverge"
  by (cases "ro m") (auto simp: redraw_def draw_info_row_def Let_def)

lemma follow_fields:
  "follow e m next = Done t \<Longrightarrow>
   \<exists>m'. t = Continue m' \<and> settings m' = settings m \<and> total_rows m' = total_rows m \<and>
        first_visible m' = first_visible m \<and> store m' = store m \<and> current m' = next \<and>
        (if next = current m then m' = m else \<not> editing m' \<and> ro m' = row e (settings m) next)"
  by (auto simp: follow_def split: if_splits outcome.splits dest!: select_setting_fields)

lemma default_key_fields:
  "settings (default_key e m key) = settings m \<and>
   total_rows (default_key e m key) = total_rows m \<and>
   first_visible (default_key e m key) = first_visible m \<and>
   current (default_key e m key) = current m \<and>
   store (default_key e m key) = store m \<and>
   ro (default_key e m key) = ro m \<and>
   (editing (default_key e m key) \<longrightarrow> editing m \<or> (\<exists>d. ro m = SETTING_ROW d))"
  by (cases "ro m") (auto simp: default_key_def edit_setting_def split: prod.splits)

lemma reveal_editing: "reveal e m n = Done m' \<Longrightarrow> \<not> editing m \<Longrightarrow> \<not> editing m'"
  by (cases "on_screen (first_visible m) n") (auto simp: reveal_on_screen dest: reveal_fields)

lemma down_in_range:
  "(c::u32) < t - 1 \<Longrightarrow> c < t \<Longrightarrow> c + 1 < t"
  by unat_arith

lemma up_in_range:
  "0 < (c::u32) \<Longrightarrow> c < t \<Longrightarrow> c - 1 < t"
  by unat_arith

lemma loop_inv_emit [simp]: "loop_inv e s (emit c m) = loop_inv e s m"
  by (simp add: loop_inv_def)

lemma editing_key_fields:
  assumes "editing_key e m key = Done t"
  shows "\<exists>m'. t = Continue m' \<and> settings m' = settings m \<and> total_rows m' = total_rows m \<and>
           first_visible m' = first_visible m \<and> current m' = current m \<and> ro m' = ro m"
proof -
  obtain k m1 where e1: "edit_setting m key = (k, m1)" by (cases "edit_setting m key")
  note f1 = edit_setting_fields [OF e1]
  show ?thesis
  proof (cases "k = CR \<or> k = LF")
    case True
    with assms e1 obtain rc st m' where
      sv: "save_setting m1 = Done (rc, st)" and
      ld: "load_setting (if rc \<noteq> 0
             then emit (alert e ('' Could not set ''
                    @ (case ro m1 of SETTING_ROW d \<Rightarrow> name d | _ \<Rightarrow> [])
                    @ '': '' @ strerror e rc @ '' '')) (m1\<lparr>store := st\<rparr>)
             else m1\<lparr>store := st\<rparr>) = Done m'" and
      t: "t = Continue m'"
      by (auto simp: editing_key_def Let_def continue_def split: outcome.splits if_splits)
    from load_setting_fields [OF ld] f1 t show ?thesis
      by (auto split: if_splits)
  next
    case False
    show ?thesis
    proof (cases "k = CTRL_C")
      case True
      with False assms e1 obtain m' where ld: "load_setting m1 = Done m'" and t: "t = Continue m'"
        by (auto simp: editing_key_def continue_def split: outcome.splits)
      from load_setting_fields [OF ld] f1 t show ?thesis by auto
    next
      case c: False
      with False assms e1 have "t = Continue m1"
        by (auto simp: editing_key_def)
      with f1 show ?thesis by auto
    qed
  qed
qed

lemma viewing_key_fields:
  assumes v: "viewing_key e m key = Done (Continue m')" and ne: "\<not> editing m"
  shows "settings m' = settings m \<and> total_rows m' = total_rows m \<and>
         unat (first_visible m') mod 16 = unat (first_visible m) mod 16 \<and>
         (editing m' \<longrightarrow> (\<exists>d. ro m' = SETTING_ROW d)) \<and>
         (current m < total_rows m \<longrightarrow> current m' < total_rows m')"
proof -
  have fol: "\<And>m1 next. follow e m1 next = Done (Continue m') \<Longrightarrow> \<not> editing m1 \<or> (\<exists>d. ro m1 = SETTING_ROW d) \<Longrightarrow>
      settings m' = settings m1 \<and> total_rows m' = total_rows m1 \<and>
      first_visible m' = first_visible m1 \<and> current m' = next \<and>
      (editing m' \<longrightarrow> (\<exists>d. ro m' = SETTING_ROW d))"
    by (auto dest!: follow_fields split: if_splits)
  note dk = default_key_fields [of e m key]
  consider (down) "key = KEY_DOWN" | (up) "key = KEY_UP" | (del) "key = CTRL_D"
    | (exit) "key = CTRL_X" | (enter) "key = CR \<or> key = LF"
    | (other) "key \<noteq> KEY_DOWN" "key \<noteq> KEY_UP" "key \<noteq> CTRL_D" "key \<noteq> CTRL_X" "key \<noteq> CR" "key \<noteq> LF"
    by blast
  then show ?thesis
  proof cases
    case down
    show ?thesis
    proof (cases "current m < total_rows m - 1")
      case True
      with v down obtain m1 where r: "reveal e m (current m + 1) = Done m1"
        and f: "follow e m1 (current m + 1) = Done (Continue m')"
        by (auto simp: viewing_key_def Let_def split: outcome.splits)
      from reveal_editing [OF r ne] have "\<not> editing m1" .
      with fol [OF f] reveal_fields [OF r] True show ?thesis
        by (auto dest: down_in_range)
    next
      case False
      with v down have "follow e m (current m) = Done (Continue m')"
        by (simp add: viewing_key_def Let_def)
      with fol [of m "current m"] ne show ?thesis by auto
    qed
  next
    case up
    have kd: "key \<noteq> KEY_DOWN" using up by (simp add: key_defs)
    show ?thesis
    proof (cases "0 < current m")
      case True
      with v up kd obtain m1 where r: "reveal e m (current m - 1) = Done m1"
        and f: "follow e m1 (current m - 1) = Done (Continue m')"
        by (auto simp: viewing_key_def Let_def split: outcome.splits)
      from reveal_editing [OF r ne] have "\<not> editing m1" .
      with fol [OF f] reveal_fields [OF r] True show ?thesis
        by (auto dest: up_in_range)
    next
      case False
      with v up kd have "follow e m (current m) = Done (Continue m')"
        by (simp add: viewing_key_def Let_def)
      with fol [of m "current m"] ne show ?thesis by auto
    qed
  next
    case del
    have kd: "key \<noteq> KEY_DOWN" "key \<noteq> KEY_UP" using del by (simp_all add: key_defs)
    show ?thesis
    proof (cases "\<exists>d. ro m = SETTING_ROW d")
      case True
      then obtain d where d: "ro m = SETTING_ROW d" by blast
      with v del kd obtain m1 where
        s: "select_setting e (m\<lparr>store := delete_setting (store m) (settings m) d\<rparr>) (current m) = Done m1"
        and f: "follow e (draw_setting m1) (current m) = Done (Continue m')"
        by (auto simp: viewing_key_def Let_def split: outcome.splits)
      from select_setting_fields [OF s] fol [OF f] show ?thesis by auto
    next
      case False
      with v del kd have "follow e (emit (alert e '' read only '') m) (current m) = Done (Continue m')"
        by (cases "ro m") (auto simp: viewing_key_def Let_def)
      with fol [of "emit (alert e '' read only '') m" "current m"] ne show ?thesis by auto
    qed
  next
    case exit
    with v show ?thesis by (auto simp: viewing_key_def Let_def key_defs)
  next
    case enter
    then have kd: "key \<noteq> KEY_DOWN" "key \<noteq> KEY_UP" "key \<noteq> CTRL_D" "key \<noteq> CTRL_X"
      by (auto simp: key_defs)
    from v enter kd have "follow e (default_key e m key) (current m) = Done (Continue m')"
      by (cases "ro m") (auto simp: viewing_key_def Let_def split: if_splits)
    with fol [of "default_key e m key" "current m"] dk ne show ?thesis by auto
  next
    case other
    with v have "follow e (default_key e m key) (current m) = Done (Continue m')"
      by (simp add: viewing_key_def Let_def)
    with fol [of "default_key e m key" "current m"] dk ne show ?thesis by auto
  qed
qed

lemma main_loop_step_inv:
  assumes st: "main_loop_step e m key = Done (Continue m')" and inv: "loop_inv e s m"
  shows "loop_inv e s m' \<and> (current m < total_rows m \<longrightarrow> current m' < total_rows m')"
proof -
  from st obtain m2 where r: "redraw e m = Done m2"
    and k: "(if editing m2 then editing_key e m2 key else viewing_key e m2 key) = Done (Continue m')"
    by (auto simp: main_loop_step_def split: outcome.splits)
  from redraw_emit [OF r] obtain c where m2: "m2 = emit c m" by blast
  show ?thesis
  proof (cases "editing m")
    case True
    with k m2 have "editing_key e m2 key = Done (Continue m')" by simp
    from editing_key_fields [OF this] inv True m2 show ?thesis
      by (auto simp: loop_inv_def split: row_object.splits)
  next
    case False
    with k m2 have v: "viewing_key e m2 key = Done (Continue m')" by simp
    from False m2 have "\<not> editing m2" by simp
    from viewing_key_fields [OF v this] inv m2 show ?thesis
      by (auto simp: loop_inv_def)
  qed
qed

lemma main_loop_init_inv:
  assumes "main_loop_init e s st scr = Done m"
  shows "loop_inv e s m \<and> current m = 0 \<and> store m = st"
proof -
  from assms obtain cnt where c: "row e s (- 1) = ROW_CNT cnt"
    by (auto simp: main_loop_init_def init_widget_def split: row_object.splits)
  define m0 where "m0 = \<lparr>settings = s, total_rows = cnt, first_visible = 16, ro = PARENT_ROW None,
        row_w = 0, col = 0, editbox = zero_editbox, editing = False, value_w = [], current = 0,
        store = st, screen = scr @ draw_title_row e s @ [Color_set 1]\<rparr>"
  from assms c have r: "reveal e m0 0 = Done m"
    by (simp add: main_loop_init_def init_widget_def m0_def)
  from reveal_editing [OF r] have "\<not> editing m" by (simp add: m0_def)
  with reveal_fields [OF r] c show ?thesis
    by (simp add: loop_inv_def m0_def)
qed

lemma loop_reachable_inv: "loop_reachable e s m \<Longrightarrow> loop_inv e s m"
  by (induction rule: loop_reachable.induct)
     (auto dest: main_loop_init_inv main_loop_step_inv)

subsection \<open>Window alignment\<close>

lemma canonical_rows_no_count: "r \<in> set (canonical_rows e s) \<Longrightarrow> r \<noteq> ROW_CNT c"
  by (auto simp: canonical_rows_def split: option.splits)

lemma total_rows_count:
  assumes "row e s n = ROW_CNT c"
  shows "unat c = length (canonical_rows e s) \<and> length (canonical_rows e s) \<le> unat n"
proof (cases "unat n < length (canonical_rows e s)")
  case True
  then have "row e s n \<in> set (canonical_rows e s)"
    by (simp add: row_eq_canonical)
  with assms canonical_rows_no_count show ?thesis by fastforce
next
  case False
  then have le: "length (canonical_rows e s) \<le> unat n" by simp
  with assms have "c = of_nat (length (canonical_rows e s))"
    by (simp add: row_eq_canonical)
  with canonical_rows_count [OF le] le show ?thesis by simp
qed

text \<open>
  Claim C6. In every state at the head of the navigator loop, for every scope, store
  and key sequence, the first visible index is a multiple of the page size 16: it is 16
  when \<open>init_widget\<close> calls \<open>reveal\<close>, and \<open>reveal\<close> changes it by whole multiples of 16 only
  (also when the 32-bit arithmetic wraps).
\<close>

theorem first_visible_multiple_of_page:
  "(loop_reachable e s m \<longrightarrow> unat (first_visible m) mod unat SETTINGS_LIST_ROWS = 0) \<and>
   (reveal e w n = Done w' \<longrightarrow>
      unat (first_visible w') mod unat SETTINGS_LIST_ROWS
        = unat (first_visible w) mod unat SETTINGS_LIST_ROWS)"
  by (auto dest: loop_reachable_inv reveal_fields simp: loop_inv_def)

theorem first_visible_multiple_of_page_witness:
  "(case main_loop_init example_env scope_X example_store [] of
      Done m0 \<Rightarrow>
        (case main_loop_step example_env m0 KEY_DOWN of
           Done (Continue m1) \<Rightarrow>
             loop_reachable example_env scope_X m1 \<and> current m1 = 1 \<and>
             unat (first_visible m1) mod 16 = 0
         | _ \<Rightarrow> False)
    | _ \<Rightarrow> False)"
proof -
  have "(case main_loop_init example_env scope_X example_store [] of
      Done m0 \<Rightarrow>
        (case main_loop_step example_env m0 KEY_DOWN of
           Done (Continue m1) \<Rightarrow> current m1 = 1
         | _ \<Rightarrow> False)
    | _ \<Rightarrow> False)"
    by code_simp
  then obtain m0 m1 where i: "main_loop_init example_env scope_X example_store [] = Done m0"
    and t: "main_loop_step example_env m0 KEY_DOWN = Done (Continue m1)" and c: "current m1 = 1"
    by (auto split: outcome.splits turn.splits)
  from i have "loop_reachable example_env scope_X m0" by (rule loop_reachable.entry)
  then have r: "loop_reachable example_env scope_X m1" using t by (rule loop_reachable.turn)
  with first_visible_multiple_of_page [of example_env scope_X m1]
  have "unat (first_visible m1) mod 16 = 0" by simp
  with i t c r show ?thesis by simp
qed

lemma main_loop_run_reachable:
  "loop_reachable e s m \<Longrightarrow> main_loop_run e m keys = Done (Waiting m') \<Longrightarrow>
   loop_reachable e s m'"
proof (induction keys arbitrary: m)
  case Nil
  then show ?case by simp
next
  case (Cons key keys)
  then show ?case
    by (auto split: outcome.splits turn.splits intro: loop_reachable.turn)
qed

subsection \<open>Repositioning by the scroll\<close>

lemma load_setting_Done:
  "ro m = SETTING_ROW d \<Longrightarrow> \<exists>m'. load_setting m = Done m'"
  "ro m = PARENT_ROW (Some p) \<Longrightarrow> length (scope_name p) < 256 \<Longrightarrow> \<exists>m'. load_setting m = Done m'"
  "ro m = CHILD_ROW (Some c) \<Longrightarrow> length (scope_name c) < 256 \<Longrightarrow> \<exists>m'. load_setting m = Done m'"
  by (simp_all add: load_setting_def Let_def strncpy_value_def)

lemma canonical_rows_load:
  assumes "names_fit s" and "r \<in> set (canonical_rows e s)"
  shows "(\<exists>d. r = SETTING_ROW d) \<or> (\<exists>p. r = PARENT_ROW (Some p) \<and> length (scope_name p) < 256)
         \<or> (\<exists>c. r = CHILD_ROW (Some c) \<and> length (scope_name c) < 256)"
  using assms
  by (cases "parent s") (auto simp: canonical_rows_def names_fit_def list_all_iff)

lemma select_setting_Done:
  assumes "names_fit (settings m)" and "unat i < length (canonical_rows e (settings m))"
  shows "\<exists>m'. select_setting e m i = Done m'"
proof -
  from assms(2) have "row e (settings m) i \<in> set (canonical_rows e (settings m))"
    by (simp add: row_eq_canonical)
  from canonical_rows_load [OF assms(1) this] show ?thesis
    by (auto simp: select_setting_def intro: load_setting_Done)
qed

lemma draw_visible_Done:
  "names_fit (settings m) \<Longrightarrow> unat (total_rows m) = length (canonical_rows e (settings m)) \<Longrightarrow>
   \<exists>m'. draw_visible e i m = Done m'"
proof (induction e i m rule: draw_visible.induct)
  case (1 e i m)
  show ?case
  proof (cases "i < 16")
    case False
    then show ?thesis by (simp add: draw_visible.simps)
  next
    case lt: True
    show ?thesis
    proof (cases "first_visible m + i < total_rows m")
      case False
      from "1.IH"(2) [OF lt False] "1.prems"
      obtain m' where "draw_visible e (i + 1) (emit (clearmsg (3 + i)) m) = Done m'"
        by auto
      with lt False show ?thesis by (simp add: draw_visible.simps [of e i m])
    next
      case True
      then have "unat (first_visible m + i) < length (canonical_rows e (settings m))"
        using "1.prems"(2) by (simp add: word_less_nat_alt)
      from select_setting_Done [OF "1.prems"(1) this]
      obtain m1 where s: "select_setting e m (first_visible m + i) = Done m1" by blast
      from select_setting_fields [OF s] "1.prems"
      have "names_fit (settings (draw_setting m1))"
        "unat (total_rows (draw_setting m1)) = length (canonical_rows e (settings (draw_setting m1)))"
        by simp_all
      from "1.IH"(1) [OF lt True s this]
      obtain m' where "draw_visible e (i + 1) (draw_setting m1) = Done m'" by blast
      with lt True s show ?thesis by (simp add: draw_visible.simps [of e i m])
    qed
  qed
qed

lemma aligned_page: "(a::nat) mod 16 = 0 \<Longrightarrow> a \<le> b \<Longrightarrow> b < a + 16 \<Longrightarrow> a = b - b mod 16"
proof -
  assume a: "a mod 16 = 0" and le: "a \<le> b" and lt: "b < a + 16"
  from le obtain r where b: "b = a + r" by (auto simp: le_iff_add)
  with lt have r: "r < 16" by simp
  have "b mod 16 = (a mod 16 + r mod 16) mod 16" unfolding b by (simp add: mod_add_eq)
  with a r have "b mod 16 = r" by simp
  with b show ?thesis by simp
qed

lemma aligned_window:
  "unat (fv::u32) mod 16 = 0 \<Longrightarrow> unat fv \<le> unat (n::u32) \<Longrightarrow> unat n < unat fv + 16 \<Longrightarrow>
   unat fv = unat n - unat n mod 16"
  by (rule aligned_page)

lemma draw_visible_screen:
  "draw_visible e i m = Done m' \<Longrightarrow> \<exists>c. screen m' = screen m @ c"
proof (induction e i m rule: draw_visible.induct)
  case (1 e i m)
  show ?case
  proof (cases "i < 16")
    case False
    with "1.prems" show ?thesis by (simp add: draw_visible.simps)
  next
    case lt: True
    show ?thesis
    proof (cases "first_visible m + i < total_rows m")
      case False
      with lt "1.prems" have "draw_visible e (i + 1) (emit (clearmsg (3 + i)) m) = Done m'"
        by (simp add: draw_visible.simps [of e i m])
      from "1.IH"(2) [OF lt False this] show ?thesis by auto
    next
      case True
      with lt "1.prems" obtain m1 where
        s: "select_setting e m (first_visible m + i) = Done m1" and
        d: "draw_visible e (i + 1) (draw_setting m1) = Done m'"
        by (auto simp: draw_visible.simps [of e i m] split: outcome.splits)
      obtain c1 where c1: "draw_setting m1 = emit c1 m1" using draw_setting_emit by blast
      from "1.IH"(1) [OF lt True s d] select_setting_fields [OF s] c1
      show ?thesis by auto
    qed
  qed
qed


lemma reveal_repositions:
  assumes fvb: "unat (first_visible m) < 2 ^ 32 - 16" and nb: "unat n < 2 ^ 32 - 16"
    and al: "unat (first_visible m) mod 16 = 0"
    and cnt: "row e (settings m) (- 1) = ROW_CNT (total_rows m)"
    and nf: "names_fit (settings m)" and nr: "n < total_rows m"
  shows "\<exists>m'. reveal e m n = Done m' \<and>
           unat (first_visible m') = unat n - unat n mod 16 \<and>
           unat (first_visible m') \<le> unat n \<and> unat n < unat (first_visible m') + 16 \<and>
           (if on_screen (first_visible m) n then m' = m
            else ro m' = row e (settings m) n \<and> screen m' \<noteq> screen m)"
proof -
  from total_rows_count [OF cnt]
  have tr: "unat (total_rows m) = length (canonical_rows e (settings m))" by simp
  show ?thesis
  proof (cases "on_screen (first_visible m) n")
    case True
    with on_screen_iff [OF fvb, of n]
    have w: "unat (first_visible m) \<le> unat n" "unat n < unat (first_visible m) + 16" by simp_all
    from aligned_window [OF al w] w True show ?thesis
      by (simp add: reveal_on_screen)
  next
    case False
    from nb have "unat n \<le> 2 ^ 32 - 16" by simp
    from scroll_forward_returns [OF this] obtain fv1 where
      f: "scroll_forward (first_visible m) n = Some fv1" by blast
    from scroll_forward_mod [OF f] al have a1: "unat fv1 mod 16 = 0" by simp
    from scroll_back_returns [OF a1] obtain fv2 where b: "scroll_back fv1 n = Some fv2" by blast
    from scroll_back_mod [OF b] a1 have a2: "unat fv2 mod 16 = 0" by simp
    from scroll_forward_ge [OF f] scroll_back_spec [OF b]
    have os: "on_screen fv2 n" and le: "fv2 \<le> n" by simp_all
    from le nb have "unat fv2 < 2 ^ 32 - 16" by (simp add: word_le_nat_alt)
    from on_screen_iff [OF this, of n] os
    have w: "unat fv2 \<le> unat n" "unat n < unat fv2 + 16" by simp_all
    define m2 where "m2 = emit [Mvaddstr (3 - 1) (1 + 1) (if fv2 > 0 then ''...'' else ''   ''),
                 Mvaddstr (3 + 16) (1 + 1)
                   (if fv2 + 16 < total_rows m then ''...'' else ''   '')]
             (m\<lparr>first_visible := fv2\<rparr>)"
    have "names_fit (settings m2)" "unat (total_rows m2) = length (canonical_rows e (settings m2))"
      using nf tr by (simp_all add: m2_def)
    from draw_visible_Done [OF this, of 0] obtain m3 where d: "draw_visible e 0 m2 = Done m3"
      by blast
    from draw_visible_fields [OF d] have k3: "settings m3 = settings m" "first_visible m3 = fv2"
      by (simp_all add: m2_def)
    from nr tr have "unat n < length (canonical_rows e (settings m3))"
      by (simp add: word_less_nat_alt k3)
    from select_setting_Done [OF _ this] nf k3
    obtain m' where s: "select_setting e m3 n = Done m'" by auto
    have r: "reveal e m n = Done m'"
      using False f b d s by (simp add: reveal_def Let_def m2_def)
    from draw_visible_screen [OF d] obtain c where "screen m3 = screen m2 @ c" by blast
    with select_setting_fields [OF s] have sc: "screen m' \<noteq> screen m"
      by (simp add: m2_def)
    from select_setting_fields [OF s] k3 aligned_window [OF a2 w] w r False sc
    show ?thesis by simp
  qed
qed

text \<open>
  Claim C9. The on-screen test of \<open>reveal\<close>, the single unsigned comparison
  \<open>n - first_visible < 16\<close>, is the containment of \<open>n\<close> in the window from
  \<open>first_visible\<close> to \<open>first_visible + 16\<close>, for every \<open>n\<close> and every \<open>first_visible\<close>
  below \<open>2 ^ 32 - 16\<close>: for a target below the window the subtraction wraps to a value
  of at least 16. So \<open>reveal\<close> returns at once, changing nothing, for a target in the
  window. For a target row outside the window, above it or below it, \<open>reveal\<close> returns
  with the window moved to the page of the target, \<open>n - n mod 16\<close>, which contains the
  target; the target's row is loaded into the widget and the rows are drawn again. The
  return is proved where the program calls \<open>reveal\<close>: the window starts at a multiple of
  16, the row count is the count of the scope, the target is a row below \<open>2 ^ 32 - 16\<close>
  and the names fit the value buffer. From a window that does not start at a multiple of
  16 the scroll loops need not end.
\<close>

theorem on_screen_window:
  assumes "unat (first_visible m) < 2 ^ 32 - 16"
  shows "on_screen (first_visible m) n =
           (unat (first_visible m) \<le> unat n \<and> unat n < unat (first_visible m) + 16) \<and>
         (n < first_visible m \<longrightarrow> 16 \<le> n - first_visible m) \<and>
         (unat (first_visible m) \<le> unat n \<and> unat n < unat (first_visible m) + 16
            \<longrightarrow> reveal e m n = Done m) \<and>
         (reveal e m n = Done m' \<longrightarrow> on_screen (first_visible m') n) \<and>
         (unat n < 2 ^ 32 - 16 \<and> unat (first_visible m) mod 16 = 0 \<and>
          row e (settings m) (- 1) = ROW_CNT (total_rows m) \<and> names_fit (settings m) \<and>
          n < total_rows m \<longrightarrow>
            (\<exists>w. reveal e m n = Done w \<and>
               unat (first_visible w) = unat n - unat n mod 16 \<and>
               unat (first_visible w) \<le> unat n \<and> unat n < unat (first_visible w) + 16 \<and>
               (if on_screen (first_visible m) n then w = m
                else ro w = row e (settings m) n \<and> screen w \<noteq> screen m)))"
proof -
  have a: "on_screen (first_visible m) n =
           (unat (first_visible m) \<le> unat n \<and> unat n < unat (first_visible m) + 16)"
    by (rule on_screen_iff [OF assms])
  have b: "n < first_visible m \<longrightarrow> 16 \<le> n - first_visible m"
    using a by (auto simp: on_screen_def word_less_nat_alt word_le_nat_alt)
  have c: "reveal e m n = Done m' \<longrightarrow> on_screen (first_visible m') n"
    by (auto dest: reveal_fields)
  have d: "unat (first_visible m) \<le> unat n \<and> unat n < unat (first_visible m) + 16
            \<longrightarrow> reveal e m n = Done m"
    using a by (auto simp: reveal_on_screen)
  have r: "unat n < 2 ^ 32 - 16 \<and> unat (first_visible m) mod 16 = 0 \<and>
          row e (settings m) (- 1) = ROW_CNT (total_rows m) \<and> names_fit (settings m) \<and>
          n < total_rows m \<longrightarrow>
            (\<exists>w. reveal e m n = Done w \<and>
               unat (first_visible w) = unat n - unat n mod 16 \<and>
               unat (first_visible w) \<le> unat n \<and> unat n < unat (first_visible w) + 16 \<and>
               (if on_screen (first_visible m) n then w = m
                else ro w = row e (settings m) n \<and> screen w \<noteq> screen m))"
    by (intro impI, elim conjE) (rule reveal_repositions [OF assms]; assumption)
  from a b c d r show ?thesis by blast
qed

theorem on_screen_window_witness:
  "(\<exists>w. reveal example_env (wide_widget 0) 17 = Done w \<and> unat (first_visible w) = 16 \<and>
        ro w = row example_env wide_scope 17 \<and> screen w \<noteq> []) \<and>
   (\<exists>w. reveal example_env (wide_widget 16) 3 = Done w \<and> unat (first_visible w) = 0 \<and>
        ro w = row example_env wide_scope 3 \<and> screen w \<noteq> []) \<and>
   \<not> on_screen 0 17 \<and> \<not> on_screen 16 3 \<and> 16 \<le> (3::u32) - 16 \<and>
   reveal example_env (wide_widget 16) 20 = Done (wide_widget 16)"
proof -
  have cnt: "row example_env wide_scope (- 1) = ROW_CNT 20"
    by code_simp
  have nf: "names_fit wide_scope"
    by code_simp
  have h0: "unat (first_visible (wide_widget 0)) < 2 ^ 32 - 16"
    and h16: "unat (first_visible (wide_widget 16)) < 2 ^ 32 - 16"
    by (simp_all add: wide_widget_def)
  have p0: "unat (17::u32) < 2 ^ 32 - 16 \<and> unat (first_visible (wide_widget 0)) mod 16 = 0 \<and>
          row example_env (settings (wide_widget 0)) (- 1) = ROW_CNT (total_rows (wide_widget 0)) \<and>
          names_fit (settings (wide_widget 0)) \<and> 17 < total_rows (wide_widget 0)"
    using cnt nf by (simp add: wide_widget_def)
  have p16: "unat (3::u32) < 2 ^ 32 - 16 \<and> unat (first_visible (wide_widget 16)) mod 16 = 0 \<and>
          row example_env (settings (wide_widget 16)) (- 1) = ROW_CNT (total_rows (wide_widget 16)) \<and>
          names_fit (settings (wide_widget 16)) \<and> 3 < total_rows (wide_widget 16)"
    using cnt nf by (simp add: wide_widget_def)
  have os: "\<not> on_screen 0 17" "\<not> on_screen 16 3" "on_screen 16 20"
    by (simp_all add: on_screen_def)
  have s0: "settings (wide_widget 0) = wide_scope" "screen (wide_widget 0) = []"
    "first_visible (wide_widget 0) = 0"
    and s16: "settings (wide_widget 16) = wide_scope" "screen (wide_widget 16) = []"
    "first_visible (wide_widget 16) = 16"
    by (simp_all add: wide_widget_def)
  note r0 = on_screen_window [OF h0, of 17 example_env, THEN conjunct2, THEN conjunct2,
      THEN conjunct2, THEN conjunct2, THEN mp, OF p0]
  note r16 = on_screen_window [OF h16, of 3 example_env, THEN conjunct2, THEN conjunct2,
      THEN conjunct2, THEN conjunct2, THEN mp, OF p16]
  from r0
  have "\<exists>w. reveal example_env (wide_widget 0) 17 = Done w \<and>
               unat (first_visible w) = unat (17::u32) - unat (17::u32) mod 16 \<and>
               (if on_screen (first_visible (wide_widget 0)) 17 then w = wide_widget 0
                else ro w = row example_env (settings (wide_widget 0)) 17 \<and>
                     screen w \<noteq> screen (wide_widget 0))"
    by (elim exE conjE) (intro exI conjI; assumption)
  with os(1) have a: "\<exists>w. reveal example_env (wide_widget 0) 17 = Done w \<and>
        unat (first_visible w) = 16 \<and>
        ro w = row example_env wide_scope 17 \<and> screen w \<noteq> []"
    by (simp add: s0)
  from r16
  have "\<exists>w. reveal example_env (wide_widget 16) 3 = Done w \<and>
               unat (first_visible w) = unat (3::u32) - unat (3::u32) mod 16 \<and>
               (if on_screen (first_visible (wide_widget 16)) 3 then w = wide_widget 16
                else ro w = row example_env (settings (wide_widget 16)) 3 \<and>
                     screen w \<noteq> screen (wide_widget 16))"
    by (elim exE conjE) (intro exI conjI; assumption)
  with os(2) have b: "\<exists>w. reveal example_env (wide_widget 16) 3 = Done w \<and>
        unat (first_visible w) = 0 \<and>
        ro w = row example_env wide_scope 3 \<and> screen w \<noteq> []"
    by (simp add: s16)
  from on_screen_window [OF h16, of 3 example_env, THEN conjunct2, THEN conjunct1]
  have c: "16 \<le> (3::u32) - 16" by (simp add: s16)
  from on_screen_window [OF h16, of 20 example_env, THEN conjunct2, THEN conjunct2,
      THEN conjunct1]
  have d: "reveal example_env (wide_widget 16) 20 = Done (wide_widget 16)"
    by (simp add: s16)
  from a b c d os show ?thesis by simp
qed

subsection \<open>Selection range and the scope without rows\<close>

text \<open>
  A state at the head of the loop exists only on a scope with rows, and there the
  selection stays below the row count. On a scope without rows the entry faults.
\<close>

lemma select_setting_row:
  "select_setting e m i = Done m' \<Longrightarrow> row e (settings m) i \<noteq> ROW_CNT c"
  by (auto simp: select_setting_def load_setting_def Let_def split: row_object.splits)

lemma reveal_selects_row:
  assumes "reveal e m n = Done m'" and "\<not> on_screen (first_visible m) n"
  shows "row e (settings m) n \<noteq> ROW_CNT c"
proof -
  from assms obtain fv2 m3 where
    d: "draw_visible e 0
          (emit [Mvaddstr (3 - 1) (1 + 1) (if fv2 > 0 then ''...'' else ''   ''),
                 Mvaddstr (3 + 16) (1 + 1)
                   (if fv2 + 16 < total_rows m then ''...'' else ''   '')]
             (m\<lparr>first_visible := fv2\<rparr>)) = Done m3" and
    s: "select_setting e m3 n = Done m'"
    by (auto simp: reveal_def Let_def split: option.splits outcome.splits)
  from draw_visible_fields [OF d] select_setting_row [OF s, of c] show ?thesis by simp
qed

lemma entry_has_rows:
  assumes "main_loop_init e s st scr = Done m"
  shows "canonical_rows e s \<noteq> []"
proof
  assume emp: "canonical_rows e s = []"
  from assms obtain cnt where c: "row e s (- 1) = ROW_CNT cnt"
    by (auto simp: main_loop_init_def init_widget_def split: row_object.splits)
  define m0 where "m0 = \<lparr>settings = s, total_rows = cnt, first_visible = 16, ro = PARENT_ROW None,
        row_w = 0, col = 0, editbox = zero_editbox, editing = False, value_w = [], current = 0,
        store = st, screen = scr @ draw_title_row e s @ [Color_set 1]\<rparr>"
  from assms c have r: "reveal e m0 0 = Done m"
    by (simp add: main_loop_init_def init_widget_def m0_def)
  have "\<not> on_screen (first_visible m0) 0" by (simp add: m0_def on_screen_def)
  from reveal_selects_row [OF r this, of 0] emp show False
    by (simp add: row_eq_canonical m0_def)
qed

lemma selection_stays_in_range:
  "loop_reachable e s m \<Longrightarrow> current m < total_rows m"
proof (induction rule: loop_reachable.induct)
  case (entry e s st scr m)
  from main_loop_init_inv [OF entry(1)] have c: "current m = 0"
    and r: "row e s (- 1) = ROW_CNT (total_rows m)"
    by (simp_all add: loop_inv_def)
  from total_rows_count [OF r] entry_has_rows [OF entry(1)]
  have "unat (total_rows m) \<noteq> 0" by simp
  then have "total_rows m \<noteq> 0" by (simp add: unat_eq_0)
  with c show ?case by (simp add: word_greater_zero_iff)
next
  case (turn e s m key m')
  then show ?case
    using main_loop_step_inv loop_reachable_inv by blast
qed

lemma zero_rows_entry_faults:
  assumes "canonical_rows e s = []"
  shows "main_loop_init e s st scr = Fault"
proof -
  have c: "row e s (- 1) = ROW_CNT 0" and z: "row e s 0 = ROW_CNT 0"
    using assms by (simp_all add: row_eq_canonical)
  define m0 where "m0 = \<lparr>settings = s, total_rows = 0, first_visible = 16, ro = PARENT_ROW None,
        row_w = 0, col = 0, editbox = zero_editbox, editing = False, value_w = [], current = 0,
        store = st, screen = scr @ draw_title_row e s @ [Color_set 1]\<rparr>"
  have i: "main_loop_init e s st scr = reveal e m0 0"
    using c by (simp add: main_loop_init_def init_widget_def m0_def)
  have nd: "reveal e m0 0 \<noteq> Diverge"
    by (rule reveal_returns) (simp_all add: m0_def)
  show ?thesis
  proof (cases "reveal e m0 0")
    case (Done m)
    with i have "main_loop_init e s st scr = Done m" by simp
    from entry_has_rows [OF this] assms show ?thesis by simp
  next
    case Fault
    with i show ?thesis by simp
  next
    case Diverge
    with nd show ?thesis by simp
  qed
qed

text \<open>
  Claim C8. The selected index lies below the row count in every state at the head of
  the navigator loop, the selection 0 of the session start included, for every scope
  including one with no rows. On the empty scope the code does not do this. The row count
  is 0 and row 0 is the count row; \<^verbatim>\<open>init_widget\<close> reveals and selects row 0 all the same,
  and \<^verbatim>\<open>load_setting\<close> hands the count row to \<^verbatim>\<open>fetchf_setting\<close> as a setting, a
  \<^verbatim>\<open>NULL\<close> pointer: the session faults before the loop is reached. Where that read does
  no harm the selection 0 is not below the row count 0, and the guard of the Down key,
  \<open>current < total_rows - 1\<close>, wraps around and lets the selection move on to row 1.
\<close>

theorem empty_scope_entry_faults:
  "row example_env empty_scope (- 1) = ROW_CNT 0 \<and>
   row example_env empty_scope 0 = ROW_CNT 0 \<and>
   main_loop_init example_env empty_scope example_store [] = Fault \<and>
   settings_ui example_env empty_scope example_store [KEY_DOWN, CTRL_X] = Fault \<and>
   current empty_widget < total_rows empty_widget - 1 \<and>
   viewing_key example_env empty_widget KEY_DOWN = Fault"
proof -
  have "row example_env empty_scope (- 1) = ROW_CNT 0 \<and>
   row example_env empty_scope 0 = ROW_CNT 0 \<and>
   (case main_loop_init example_env empty_scope example_store [] of Fault \<Rightarrow> True | _ \<Rightarrow> False) \<and>
   (case settings_ui example_env empty_scope example_store [KEY_DOWN, CTRL_X] of
      Fault \<Rightarrow> True | _ \<Rightarrow> False) \<and>
   current empty_widget < total_rows empty_widget - 1 \<and>
   (case viewing_key example_env empty_widget KEY_DOWN of Fault \<Rightarrow> True | _ \<Rightarrow> False)"
    by code_simp
  then show ?thesis by (auto split: outcome.splits)
qed

subsection \<open>Editing\<close>

lemma edit_setting_bubbles:
  "key = CR \<or> key = LF \<or> key = CTRL_C \<Longrightarrow> edit_setting m key = (key, m\<lparr>editing := True\<rparr>)"
  by (auto simp: edit_setting_def edit_editbox_def key_defs)

lemma load_setting_row:
  "ro m = SETTING_ROW d \<Longrightarrow>
   load_setting m =
     Done (m\<lparr>editing := False,
             value_w := snd (fetchf_setting (store m) (settings m) d [] 256),
             editbox := init_editbox (snd (fetchf_setting (store m) (settings m) d [] 256)) 256
                          (row_w m) (col m + 17) 60\<rparr>)"
  by (simp add: load_setting_def Let_def)

lemma editing_key_confirm:
  assumes "ro m = SETTING_ROW d" and "key = CR \<or> key = LF"
  shows "\<exists>m'. editing_key e m key = Done (Continue m') \<and> \<not> editing m' \<and>
           settings m' = settings m \<and> ro m' = ro m \<and>
           store m' = snd (storef_setting (store m) (settings m) d (value_w m)) \<and>
           value_w m' = snd (fetchf_setting (store m') (settings m') d [] 256) \<and>
           screen m' = screen m @
             (if fst (storef_setting (store m) (settings m) d (value_w m)) \<noteq> 0
              then alert e ('' Could not set '' @ name d @ '': ''
                     @ strerror e (fst (storef_setting (store m) (settings m) d (value_w m)))
                     @ '' '')
              else [])"
proof -
  obtain rc st where sf: "storef_setting (store m) (settings m) d (value_w m) = (rc, st)"
    by (cases "storef_setting (store m) (settings m) d (value_w m)")
  have es: "edit_setting m key = (key, m\<lparr>editing := True\<rparr>)"
    using assms(2) edit_setting_bubbles [of key m] by blast
  have sv: "save_setting (m\<lparr>editing := True\<rparr>) = Done (rc, st)"
    using assms(1) sf by (simp add: save_setting_def)
  show ?thesis
    using assms es sv sf
    by (cases "rc = 0")
       (auto simp: editing_key_def Let_def continue_def load_setting_row emit_def)
qed

lemma editing_key_cancel:
  assumes "ro m = SETTING_ROW d"
  shows "\<exists>m'. editing_key e m CTRL_C = Done (Continue m') \<and> \<not> editing m' \<and>
           settings m' = settings m \<and> ro m' = ro m \<and> store m' = store m \<and>
           value_w m' = snd (fetchf_setting (store m') (settings m') d [] 256) \<and>
           screen m' = screen m"
proof -
  have es: "edit_setting m CTRL_C = (CTRL_C, m\<lparr>editing := True\<rparr>)"
    using edit_setting_bubbles [of CTRL_C m] by blast
  show ?thesis
    using assms es
    by (auto simp: editing_key_def Let_def continue_def load_setting_row key_defs)
qed

lemma loop_inv_editing_row:
  "loop_inv e s m \<Longrightarrow> editing m \<Longrightarrow> \<exists>d. ro m = SETTING_ROW d"
  by (cases "ro m") (auto simp: loop_inv_def)

lemma redraw_row:
  "ro m = SETTING_ROW d \<Longrightarrow> \<exists>c. redraw e m = Done (emit c m)"
  "ro m = PARENT_ROW p \<Longrightarrow> \<exists>c. redraw e m = Done (emit c m)"
  "ro m = CHILD_ROW p \<Longrightarrow> \<exists>c. redraw e m = Done (emit c m)"
proof -
  have "(\<And>cnt. ro m \<noteq> ROW_CNT cnt) \<Longrightarrow> \<exists>c. redraw e m = Done (emit c m)"
    using redraw_Done [of m e] redraw_emit [of e m] by metis
  then show "ro m = SETTING_ROW d \<Longrightarrow> \<exists>c. redraw e m = Done (emit c m)"
    "ro m = PARENT_ROW p \<Longrightarrow> \<exists>c. redraw e m = Done (emit c m)"
    "ro m = CHILD_ROW p \<Longrightarrow> \<exists>c. redraw e m = Done (emit c m)"
    by auto
qed

lemma redraw_not_count:
  "(\<And>cnt. ro m \<noteq> ROW_CNT cnt) \<Longrightarrow> \<exists>c. redraw e m = Done (emit c m)"
  using redraw_Done [of m e] redraw_emit [of e m] by metis

lemma edit_setting_emit: "fst (edit_setting (emit c m) key) = fst (edit_setting m key)"
  by (simp add: edit_setting_def split: prod.splits)

lemma editing_key_handled:
  assumes "ro m = SETTING_ROW d"
    and "fst (edit_setting m key) = CR \<or> fst (edit_setting m key) = LF
         \<or> fst (edit_setting m key) = CTRL_C"
  shows "\<exists>m'. editing_key e m key = Done (Continue m') \<and> \<not> editing m'"
proof -
  obtain k m1 where es: "edit_setting m key = (k, m1)" by (cases "edit_setting m key")
  from edit_setting_fields [OF es] assms(1) have r1: "ro m1 = SETTING_ROW d" by simp
  obtain rc st where sf: "storef_setting (store m1) (settings m1) d (value_w m1) = (rc, st)"
    by (cases "storef_setting (store m1) (settings m1) d (value_w m1)")
  have sv: "save_setting m1 = Done (rc, st)"
    using r1 sf by (simp add: save_setting_def)
  define m3 where "m3 = (if rc \<noteq> 0
      then emit (alert e ('' Could not set '' @ name d @ '': '' @ strerror e rc @ '' ''))
             (m1\<lparr>store := st\<rparr>)
      else m1\<lparr>store := st\<rparr>)"
  have r3: "ro m3 = SETTING_ROW d" using r1 by (simp add: m3_def)
  from load_setting_row [OF r3] obtain m4 where l3: "load_setting m3 = Done m4"
    and e4: "\<not> editing m4" by simp
  from load_setting_row [OF r1] obtain m5 where l1: "load_setting m1 = Done m5"
    and e5: "\<not> editing m5" by simp
  show ?thesis
  proof (cases "k = CR \<or> k = LF")
    case True
    have "editing_key e m key = continue (load_setting m3)"
      using True es sv r1 by (cases "rc = 0") (simp_all add: editing_key_def Let_def m3_def)
    with l3 have "editing_key e m key = Done (Continue m4)" by (simp add: continue_def)
    with e4 show ?thesis by blast
  next
    case False
    with assms(2) es have "k = CTRL_C" by simp
    with False have "editing_key e m key = Done (Continue m5)"
      using es l1 by (simp add: editing_key_def continue_def)
    with e5 show ?thesis by blast
  qed
qed

lemma main_loop_reachable:
  "main_loop e s st scr keys = Done (Waiting m) \<Longrightarrow> loop_reachable e s m"
  by (auto simp: main_loop_def split: outcome.splits
      intro: main_loop_run_reachable loop_reachable.entry)

text \<open>
  Claim C10. In every state at the head of the navigator loop in which the widget is
  editing, a key that the line editor hands back as a confirm key (CR or LF) or as the
  cancel key (Ctrl-C) ends the turn with the widget not editing, whether or not the store
  accepts the value: the handler ends in \<open>load_setting\<close>, which clears the editing flag.
\<close>

theorem editing_ends_in_viewing:
  assumes "loop_reachable e s m" and "editing m"
    and "fst (edit_setting m key) \<in> {CR, LF, CTRL_C}"
  shows "\<exists>m'. main_loop_step e m key = Done (Continue m') \<and> \<not> editing m'"
proof -
  from loop_inv_editing_row [OF loop_reachable_inv [OF assms(1)] assms(2)]
  obtain d where d: "ro m = SETTING_ROW d" by blast
  from redraw_row(1) [OF d] obtain c where r: "redraw e m = Done (emit c m)" by blast
  have d2: "ro (emit c m) = SETTING_ROW d" using d by simp
  have k: "fst (edit_setting (emit c m) key) = CR \<or> fst (edit_setting (emit c m) key) = LF
         \<or> fst (edit_setting (emit c m) key) = CTRL_C"
    using assms(3) by (simp add: edit_setting_emit)
  from editing_key_handled [OF d2 k, of e] r assms(2) show ?thesis
    by (auto simp: main_loop_step_def)
qed

theorem editing_ends_in_viewing_witness:
  "(case main_loop example_env scope_X example_store [] [KEY_DOWN, KEY_DOWN, KEY_DOWN, 120] of
      Done (Waiting m) \<Rightarrow>
        editing m \<and> value_w m = ''v0x'' \<and>
        (\<exists>m'. main_loop_step example_env m CTRL_C = Done (Continue m') \<and> \<not> editing m') \<and>
        (\<exists>m'. main_loop_step example_env m CR = Done (Continue m') \<and> \<not> editing m')
    | _ \<Rightarrow> False)"
proof -
  have "(case main_loop example_env scope_X example_store [] [KEY_DOWN, KEY_DOWN, KEY_DOWN, 120] of
      Done (Waiting m) \<Rightarrow> editing m \<and> value_w m = ''v0x''
    | _ \<Rightarrow> False)"
    by code_simp
  then obtain m where
    w: "main_loop example_env scope_X example_store [] [KEY_DOWN, KEY_DOWN, KEY_DOWN, 120]
          = Done (Waiting m)"
    and f: "editing m" "value_w m = ''v0x''"
    by (auto split: outcome.splits loop_end.splits)
  from w have r: "loop_reachable example_env scope_X m" by (rule main_loop_reachable)
  have k: "fst (edit_setting m CTRL_C) \<in> {CR, LF, CTRL_C}" "fst (edit_setting m CR) \<in> {CR, LF, CTRL_C}"
    by (simp_all add: edit_setting_bubbles)
  from editing_ends_in_viewing [OF r f(1) k(1)] editing_ends_in_viewing [OF r f(1) k(2)]
  show ?thesis using w f by simp
qed

text \<open>
  Claim C3. When a confirm key is pressed while editing a setting row and the typed store
  rejects the buffer, the turn ends with an alert that names the setting and the reason
  as the last thing written to the terminal, the store is as it was, the widget is not
  editing, and the value of the widget is what a formatted fetch of the same scope and
  descriptor from the store returns.
\<close>

theorem commit_rejected:
  assumes "editing m" and "ro m = SETTING_ROW d" and "key = CR \<or> key = LF"
    and "fst (storef_setting (store m) (settings m) d (value_w m)) \<noteq> 0"
  shows "\<exists>m' calls. main_loop_step e m key = Done (Continue m') \<and>
           screen m' = screen m @ calls
             @ alert e ('' Could not set '' @ name d @ '': ''
                        @ strerror e (fst (storef_setting (store m) (settings m) d (value_w m)))
                        @ '' '') \<and>
           store m' = store m \<and>
           value_w m' = snd (fetchf_setting (store m') (settings m') d [] 256) \<and>
           \<not> editing m' \<and> settings m' = settings m \<and> ro m' = SETTING_ROW d"
proof -
  from redraw_row(1) [OF assms(2)] obtain c where r: "redraw e m = Done (emit c m)" by blast
  have d2: "ro (emit c m) = SETTING_ROW d" using assms(2) by simp
  have v: "verdict (store m) (settings m) d (value_w m) \<noteq> 0"
    using assms(4) by (auto simp: storef_setting_def Let_def split: if_splits)
  then have sf: "storef_setting (store m) (settings m) d (value_w m)
              = (verdict (store m) (settings m) d (value_w m), store m)"
    by (simp add: storef_setting_def Let_def)
  from editing_key_confirm [OF d2 assms(3), of e] obtain m' where
    k: "editing_key e (emit c m) key = Done (Continue m')" and
    f: "\<not> editing m'" "settings m' = settings m" "ro m' = ro m" "store m' = store m"
       "value_w m' = snd (fetchf_setting (store m') (settings m') d [] 256)"
       "screen m' = screen m @ c
          @ alert e ('' Could not set '' @ name d @ '': ''
                     @ strerror e (verdict (store m) (settings m) d (value_w m)) @ '' '')"
    using sf v by auto
  from r k assms(1) have "main_loop_step e m key = Done (Continue m')"
    by (simp add: main_loop_step_def)
  with f assms(2) sf show ?thesis by auto
qed

theorem commit_rejected_witness:
  "(case main_loop example_env scope_X example_store []
           [KEY_DOWN, KEY_DOWN, KEY_DOWN, 98, 97, 100] of
      Done (Waiting m) \<Rightarrow>
        editing m \<and> value_w m = ''v0bad'' \<and>
        (case main_loop_step example_env m CR of
           Done (Continue m') \<Rightarrow> value_w m' = ''v0'' \<and> \<not> editing m'
         | _ \<Rightarrow> False) \<and>
        (\<exists>m' calls. main_loop_step example_env m CR = Done (Continue m') \<and>
           screen m' = screen m @ calls @ alert example_env '' Could not set dd: Error '' \<and>
           store m' = store m \<and>
           value_w m' = snd (fetchf_setting (store m') scope_X setting_D [] 256))
    | _ \<Rightarrow> False)"
proof -
  have a: "(case main_loop example_env scope_X example_store []
           [KEY_DOWN, KEY_DOWN, KEY_DOWN, 98, 97, 100] of
      Done (Waiting m) \<Rightarrow>
        editing m \<and> value_w m = ''v0bad'' \<and> ro m = SETTING_ROW setting_D \<and>
        settings m = scope_X \<and> verdict (store m) scope_X setting_D ''v0bad'' = 34
    | _ \<Rightarrow> False)"
    by code_simp
  have b: "(case main_loop example_env scope_X example_store []
           [KEY_DOWN, KEY_DOWN, KEY_DOWN, 98, 97, 100] of
      Done (Waiting m) \<Rightarrow>
        (case main_loop_step example_env m CR of
           Done (Continue m') \<Rightarrow> value_w m' = ''v0'' \<and> \<not> editing m'
         | _ \<Rightarrow> False)
    | _ \<Rightarrow> False)"
    by code_simp
  from a obtain m where
    w: "main_loop example_env scope_X example_store []
           [KEY_DOWN, KEY_DOWN, KEY_DOWN, 98, 97, 100] = Done (Waiting m)"
    and f: "editing m" "value_w m = ''v0bad''" "ro m = SETTING_ROW setting_D"
      "settings m = scope_X" "verdict (store m) scope_X setting_D ''v0bad'' = 34"
    by (auto split: outcome.splits loop_end.splits)
  from b w have c: "(case main_loop_step example_env m CR of
           Done (Continue m') \<Rightarrow> value_w m' = ''v0'' \<and> \<not> editing m'
         | _ \<Rightarrow> False)"
    by simp
  have v: "fst (storef_setting (store m) (settings m) setting_D (value_w m)) \<noteq> 0"
    using f by (simp add: storef_setting_def)
  have k: "CR = CR \<or> CR = LF" by simp
  from commit_rejected [OF f(1) f(3) k v, of example_env]
  have "\<exists>m' calls. main_loop_step example_env m CR = Done (Continue m') \<and>
           screen m' = screen m @ calls @ alert example_env '' Could not set dd: Error '' \<and>
           store m' = store m \<and>
           value_w m' = snd (fetchf_setting (store m') scope_X setting_D [] 256)"
    using f by (auto simp: setting_D_def example_env_def storef_setting_def)
  with w f c show ?thesis by simp
qed

subsection \<open>Refusals, navigation and deletion\<close>

lemma follow_same: "follow e m (current m) = Done (Continue m)"
  by (simp add: follow_def)

lemma viewing_key_refused:
  assumes "refused_attempt e m key"
  shows "viewing_key e m key = Done (Continue (emit (alert e '' read only '') m))"
proof (cases "ro m")
  case (PARENT_ROW p)
  with assms show ?thesis
    by (auto simp: refused_attempt_def viewing_key_def Let_def default_key_def
        follow_def)
next
  case (CHILD_ROW c)
  with assms show ?thesis
    by (auto simp: refused_attempt_def viewing_key_def Let_def default_key_def
        follow_def)
next
  case (SETTING_ROW d)
  with assms show ?thesis
    by (auto simp: refused_attempt_def viewing_key_def Let_def default_key_def
        follow_def)
next
  case (ROW_CNT cnt)
  with assms show ?thesis by (simp add: refused_attempt_def)
qed

lemma refused_attempt_emit [simp]: "refused_attempt e (emit c m) key = refused_attempt e m key"
  by (simp add: refused_attempt_def)

text \<open>
  Claim C4. An attempt to edit a read-only setting row or a parent or child row, and an
  attempt to delete a parent or child row, changes nothing but the terminal, on which the
  alert is the last thing written: the widget is not editing, the store is not called,
  the selection and the widget are as before.
\<close>

theorem refused_before_editing:
  assumes "refused_attempt e m key"
  shows "\<exists>calls. main_loop_step e m key =
           Done (Continue (m\<lparr>screen := screen m @ calls @ alert e '' read only ''\<rparr>))"
proof -
  from assms have "\<And>cnt. ro m \<noteq> ROW_CNT cnt" and ne: "\<not> editing m"
    by (auto simp: refused_attempt_def)
  from redraw_not_count [OF this(1)] obtain c where r: "redraw e m = Done (emit c m)" by blast
  from assms have "refused_attempt e (emit c m) key" by simp
  from viewing_key_refused [OF this] r ne
  have "main_loop_step e m key = Done (Continue (emit (alert e '' read only '') (emit c m)))"
    by (simp add: main_loop_step_def)
  then show ?thesis by (auto simp: emit_def)
qed

theorem refused_before_editing_witness:
  "(case main_loop example_env scope_X example_store [] [KEY_DOWN] of
      Done (Waiting m) \<Rightarrow>
        ro m = CHILD_ROW (Some (Settings (Some scope_X) (Block ''Y'' 0x100 []))) \<and>
        (\<exists>calls. main_loop_step example_env m CTRL_D =
           Done (Continue (m\<lparr>screen := screen m @ calls @ alert example_env '' read only ''\<rparr>))) \<and>
        (\<exists>calls. main_loop_step example_env m 120 =
           Done (Continue (m\<lparr>screen := screen m @ calls @ alert example_env '' read only ''\<rparr>)))
    | _ \<Rightarrow> False) \<and>
   (case main_loop example_env scope_X example_store []
           [KEY_DOWN, KEY_DOWN, KEY_DOWN, KEY_DOWN] of
      Done (Waiting m) \<Rightarrow>
        ro m = SETTING_ROW setting_F \<and>
        (\<exists>calls. main_loop_step example_env m CR =
           Done (Continue (m\<lparr>screen := screen m @ calls @ alert example_env '' read only ''\<rparr>)))
    | _ \<Rightarrow> False)"
proof -
  have "(case main_loop example_env scope_X example_store [] [KEY_DOWN] of
      Done (Waiting m) \<Rightarrow>
        ro m = CHILD_ROW (Some (Settings (Some scope_X) (Block ''Y'' 0x100 []))) \<and> \<not> editing m
    | _ \<Rightarrow> False)"
    by code_simp
  then obtain m where
    w: "main_loop example_env scope_X example_store [] [KEY_DOWN] = Done (Waiting m)"
    and f: "ro m = CHILD_ROW (Some (Settings (Some scope_X) (Block ''Y'' 0x100 [])))" "\<not> editing m"
    by (auto split: outcome.splits loop_end.splits)
  have r1: "refused_attempt example_env m CTRL_D" "refused_attempt example_env m 120"
    using f by (simp_all add: refused_attempt_def key_defs)
  have "(case main_loop example_env scope_X example_store []
           [KEY_DOWN, KEY_DOWN, KEY_DOWN, KEY_DOWN] of
      Done (Waiting m) \<Rightarrow> ro m = SETTING_ROW setting_F \<and> \<not> editing m
    | _ \<Rightarrow> False)"
    by code_simp
  then obtain m2 where
    w2: "main_loop example_env scope_X example_store []
           [KEY_DOWN, KEY_DOWN, KEY_DOWN, KEY_DOWN] = Done (Waiting m2)"
    and f2: "ro m2 = SETTING_ROW setting_F" "\<not> editing m2"
    by (auto split: outcome.splits loop_end.splits)
  have r2: "refused_attempt example_env m2 CR"
    using f2 by (simp add: refused_attempt_def key_defs example_env_def setting_F_def)
  from refused_before_editing [OF r1(1)] refused_before_editing [OF r1(2)]
    refused_before_editing [OF r2]
  show ?thesis using w f w2 f2 by simp
qed

lemma row_targets:
  "(row e s i = PARENT_ROW p \<longrightarrow> p = parent s \<and> p \<noteq> None) \<and>
   (row e s i = CHILD_ROW c \<longrightarrow> (\<exists>child \<in> set (children s). c = Some child))"
proof (cases "unat i < length (canonical_rows e s)")
  case True
  then have "row e s i \<in> set (canonical_rows e s)"
    by (simp add: row_eq_canonical)
  then show ?thesis
    by (cases "parent s") (auto simp: canonical_rows_def)
next
  case False
  then show ?thesis by (simp add: row_eq_canonical)
qed


lemma confirm_exit_turns:
  "(\<not> editing m \<and> (key = CR \<or> key = LF) \<and>
      (ro m = PARENT_ROW (Some t) \<or> ro m = CHILD_ROW (Some t)) \<longrightarrow>
      (\<exists>calls. main_loop_step e m key = Done (Return (Some t) (m\<lparr>screen := screen m @ calls\<rparr>)))) \<and>
   (\<not> editing m \<and> (\<forall>cnt. ro m \<noteq> ROW_CNT cnt) \<longrightarrow>
      (\<exists>calls. main_loop_step e m CTRL_X = Done (Return None (m\<lparr>screen := screen m @ calls\<rparr>)))) \<and>
   (main_loop e s st scr keys = Done (Returned (Some t) m' keys') \<longrightarrow>
      settings_ui_loop e s st scr keys = settings_ui_loop e t (store m') (screen m') keys' \<and>
      length keys' < length keys) \<and>
   (main_loop e s st scr keys = Done (Returned None m' keys') \<longrightarrow>
      settings_ui_loop e s st scr keys = Done (Ui_returned 0 (store m') (screen m' @ [Endwin]) keys'))"
proof (intro conjI impI)
  assume a: "\<not> editing m \<and> (key = CR \<or> key = LF) \<and>
      (ro m = PARENT_ROW (Some t) \<or> ro m = CHILD_ROW (Some t))"
  then have "\<And>cnt. ro m \<noteq> ROW_CNT cnt" by auto
  from redraw_not_count [OF this] obtain c where r: "redraw e m = Done (emit c m)" by blast
  from a have "viewing_key e (emit c m) key = Done (Return (Some t) (emit c m))"
    by (auto simp: viewing_key_def Let_def key_defs)
  with r a have "main_loop_step e m key = Done (Return (Some t) (emit c m))"
    by (simp add: main_loop_step_def)
  then show "\<exists>calls. main_loop_step e m key = Done (Return (Some t) (m\<lparr>screen := screen m @ calls\<rparr>))"
    by (auto simp: emit_def)
next
  assume a: "\<not> editing m \<and> (\<forall>cnt. ro m \<noteq> ROW_CNT cnt)"
  then have "\<And>cnt. ro m \<noteq> ROW_CNT cnt" by auto
  from redraw_not_count [OF this] obtain c where r: "redraw e m = Done (emit c m)" by blast
  have "viewing_key e (emit c m) CTRL_X = Done (Return None (emit c m))"
    by (auto simp: viewing_key_def Let_def key_defs)
  with r a have "main_loop_step e m CTRL_X = Done (Return None (emit c m))"
    by (simp add: main_loop_step_def)
  then show "\<exists>calls. main_loop_step e m CTRL_X = Done (Return None (m\<lparr>screen := screen m @ calls\<rparr>))"
    by (auto simp: emit_def)
next
  assume "main_loop e s st scr keys = Done (Returned (Some t) m' keys')"
  then show "settings_ui_loop e s st scr keys = settings_ui_loop e t (store m') (screen m') keys'"
    by (subst settings_ui_loop.simps) simp
next
  assume "main_loop e s st scr keys = Done (Returned (Some t) m' keys')"
  then show "length keys' < length keys" by (rule main_loop_shorter)
next
  assume "main_loop e s st scr keys = Done (Returned None m' keys')"
  then show "settings_ui_loop e s st scr keys = Done (Ui_returned 0 (store m') (screen m' @ [Endwin]) keys')"
    by (subst settings_ui_loop.simps) simp
qed

text \<open>
  Claim C5. While not editing, a confirm key on a parent or child row ends the loop and
  returns the scope of that row, and the exit key ends the loop and returns no scope. The
  session entry point calls the loop again on a returned scope, with the keys not yet
  read, and ends the session with return code 0 when no scope is returned. The scope of
  a parent row that \<open>row\<close> enumerates is the parent of the scope, and the scope of a child
  row is one of its children.
\<close>

theorem confirm_visits_exit_ends:
  "(\<not> editing m \<and> (key = CR \<or> key = LF) \<and>
      (ro m = PARENT_ROW (Some t) \<or> ro m = CHILD_ROW (Some t)) \<longrightarrow>
      (\<exists>calls. main_loop_step e m key = Done (Return (Some t) (m\<lparr>screen := screen m @ calls\<rparr>)))) \<and>
   (\<not> editing m \<and> (\<forall>cnt. ro m \<noteq> ROW_CNT cnt) \<longrightarrow>
      (\<exists>calls. main_loop_step e m CTRL_X = Done (Return None (m\<lparr>screen := screen m @ calls\<rparr>)))) \<and>
   (main_loop e s st scr keys = Done (Returned (Some t) m' keys') \<longrightarrow>
      settings_ui_loop e s st scr keys = settings_ui_loop e t (store m') (screen m') keys' \<and>
      length keys' < length keys) \<and>
   (main_loop e s st scr keys = Done (Returned None m' keys') \<longrightarrow>
      settings_ui_loop e s st scr keys = Done (Ui_returned 0 (store m') (screen m' @ [Endwin]) keys')) \<and>
   (row e s i = PARENT_ROW p \<longrightarrow> p = parent s \<and> p \<noteq> None) \<and>
   (row e s i = CHILD_ROW c \<longrightarrow> (\<exists>child \<in> set (children s). c = Some child))"
  using confirm_exit_turns [of m key t e s st scr keys m' keys'] row_targets [of e s i p c]
  by blast

theorem confirm_visits_exit_ends_witness:
  "(case main_loop example_env scope_X example_store [] [KEY_DOWN, CR, 120] of
      Done (Returned next m' keys') \<Rightarrow>
        next = Some (Settings (Some scope_X) (Block ''Y'' 0x100 [])) \<and> keys' = [120] \<and>
        settings_ui_loop example_env scope_X example_store [] [KEY_DOWN, CR, 120] =
          settings_ui_loop example_env (Settings (Some scope_X) (Block ''Y'' 0x100 []))
            (store m') (screen m') [120]
    | _ \<Rightarrow> False) \<and>
   (case main_loop example_env scope_X example_store [] [CTRL_X, 120] of
      Done (Returned next m' keys') \<Rightarrow>
        next = None \<and> keys' = [120] \<and>
        settings_ui_loop example_env scope_X example_store [] [CTRL_X, 120] =
          Done (Ui_returned 0 (store m') (screen m' @ [Endwin]) [120])
    | _ \<Rightarrow> False) \<and>
   (case settings_ui example_env scope_X example_store [KEY_DOWN, CR, CR, CTRL_X, 120] of
      Done (Ui_returned rc st scr keys') \<Rightarrow> rc = 0 \<and> keys' = [120]
    | _ \<Rightarrow> False) \<and>
   (case main_loop example_env scope_X example_store [] [KEY_DOWN] of
      Done (Waiting m) \<Rightarrow>
        (\<exists>calls. main_loop_step example_env m LF =
           Done (Return (Some (Settings (Some scope_X) (Block ''Y'' 0x100 [])))
                   (m\<lparr>screen := screen m @ calls\<rparr>))) \<and>
        (\<exists>calls. main_loop_step example_env m CTRL_X =
           Done (Return None (m\<lparr>screen := screen m @ calls\<rparr>)))
    | _ \<Rightarrow> False)"
proof -
  have d: "(case main_loop example_env scope_X example_store [] [KEY_DOWN] of
      Done (Waiting m) \<Rightarrow>
        ro m = CHILD_ROW (Some (Settings (Some scope_X) (Block ''Y'' 0x100 []))) \<and> \<not> editing m
    | _ \<Rightarrow> False)"
    by code_simp
  then obtain m0 where
    w0: "main_loop example_env scope_X example_store [] [KEY_DOWN] = Done (Waiting m0)"
    and f0: "ro m0 = CHILD_ROW (Some (Settings (Some scope_X) (Block ''Y'' 0x100 [])))"
      "\<not> editing m0"
    by (auto split: outcome.splits loop_end.splits)
  have a: "(case main_loop example_env scope_X example_store [] [KEY_DOWN, CR, 120] of
      Done (Returned next m' keys') \<Rightarrow>
        next = Some (Settings (Some scope_X) (Block ''Y'' 0x100 [])) \<and> keys' = [120]
    | _ \<Rightarrow> False)"
    by code_simp
  then obtain m1 where
    w1: "main_loop example_env scope_X example_store [] [KEY_DOWN, CR, 120] =
           Done (Returned (Some (Settings (Some scope_X) (Block ''Y'' 0x100 []))) m1 [120])"
    by (auto split: outcome.splits loop_end.splits)
  have b: "(case main_loop example_env scope_X example_store [] [CTRL_X, 120] of
      Done (Returned next m' keys') \<Rightarrow> next = None \<and> keys' = [120]
    | _ \<Rightarrow> False)"
    by code_simp
  then obtain m2 where
    w2: "main_loop example_env scope_X example_store [] [CTRL_X, 120] =
           Done (Returned None m2 [120])"
    by (auto split: outcome.splits loop_end.splits)
  have c: "(case settings_ui example_env scope_X example_store [KEY_DOWN, CR, CR, CTRL_X, 120] of
      Done (Ui_returned rc st scr keys') \<Rightarrow> rc = 0 \<and> keys' = [120]
    | _ \<Rightarrow> False)"
    by code_simp
  from confirm_visits_exit_ends
    [of m1 CR "Settings (Some scope_X) (Block ''Y'' 0x100 [])" example_env scope_X example_store
      "[]" "[KEY_DOWN, CR, 120]" m1 "[120]"]
    confirm_visits_exit_ends
    [of m2 CR scope_X example_env scope_X example_store "[]" "[CTRL_X, 120]" m2 "[120]"]
    confirm_visits_exit_ends
    [of m0 LF "Settings (Some scope_X) (Block ''Y'' 0x100 [])" example_env scope_X example_store
      "[]" "[]" m0 "[]"]
  show ?thesis using w0 f0 w1 w2 c by simp
qed

text \<open>
  Claim C2, as amended. While not editing, the delete key on the selected setting row
  deletes the value of that setting in the store and reloads the value of the widget from
  the store; the row count of the widget, the rows that \<open>row\<close> enumerates, and the
  selection are as before, and the selected row is still that setting row.
\<close>

theorem delete_keeps_rows:
  assumes "\<not> editing m" and "ro m = SETTING_ROW d"
    and "row e (settings m) (current m) = SETTING_ROW d"
  shows "\<exists>m'. main_loop_step e m CTRL_D = Done (Continue m') \<and>
           total_rows m' = total_rows m \<and> settings m' = settings m \<and>
           (\<forall>i. row e (settings m') i = row e (settings m) i) \<and>
           current m' = current m \<and> ro m' = SETTING_ROW d \<and>
           store m' = delete_setting (store m) (settings m) d \<and>
           value_w m' = snd (fetchf_setting (store m') (settings m') d [] 256) \<and>
           \<not> editing m'"
proof -
  from redraw_row(1) [OF assms(2)] obtain c where r: "redraw e m = Done (emit c m)" by blast
  define m1 where "m1 = (emit c m)\<lparr>store := delete_setting (store m) (settings m) d\<rparr>"
  define m2 where "m2 = m1\<lparr>ro := row e (settings m1) (current m),
          row_w := 3 + current m - first_visible m1, col := 1,
          editbox := zero_editbox, editing := False, value_w := []\<rparr>"
  have ro2: "ro m2 = SETTING_ROW d" using assms(3) by (simp add: m2_def m1_def)
  have sel: "select_setting e m1 (current m) = load_setting m2"
    by (simp add: select_setting_def m2_def)
  from load_setting_row [OF ro2] obtain m3 where l: "load_setting m2 = Done m3"
    and m3: "m3 = m2\<lparr>editing := False,
             value_w := snd (fetchf_setting (store m2) (settings m2) d [] 256),
             editbox := init_editbox (snd (fetchf_setting (store m2) (settings m2) d [] 256)) 256
                          (row_w m2) (col m2 + 17) 60\<rparr>"
    by simp
  have v: "viewing_key e (emit c m) CTRL_D = Done (Continue (draw_setting m3))"
    using assms(2) sel l
    by (simp add: viewing_key_def Let_def key_defs m1_def follow_def m3 m2_def)
  with r assms(1) have "main_loop_step e m CTRL_D = Done (Continue (draw_setting m3))"
    by (simp add: main_loop_step_def)
  moreover have "total_rows (draw_setting m3) = total_rows m" "settings (draw_setting m3) = settings m"
    "current (draw_setting m3) = current m" "ro (draw_setting m3) = SETTING_ROW d"
    "store (draw_setting m3) = delete_setting (store m) (settings m) d"
    "value_w (draw_setting m3) =
       snd (fetchf_setting (store (draw_setting m3)) (settings (draw_setting m3)) d [] 256)"
    "\<not> editing (draw_setting m3)"
    using assms(3) by (simp_all add: m3 m2_def m1_def)
  ultimately show ?thesis by auto
qed

theorem delete_keeps_rows_witness:
  "(case main_loop example_env scope_X example_store [] [KEY_DOWN, KEY_DOWN, KEY_DOWN] of
      Done (Waiting m) \<Rightarrow>
        value_w m = ''v0'' \<and> stored (store m) (scope_X, setting_D) = Some ''v0'' \<and>
        (case main_loop_step example_env m CTRL_D of
           Done (Continue m') \<Rightarrow>
             total_rows m' = 5 \<and> value_w m' = [] \<and>
             stored (store m') (scope_X, setting_D) = None
         | _ \<Rightarrow> False) \<and>
        (\<exists>m'. main_loop_step example_env m CTRL_D = Done (Continue m') \<and>
           total_rows m' = total_rows m \<and>
           (\<forall>i. row example_env (settings m') i = row example_env (settings m) i) \<and>
           ro m' = SETTING_ROW setting_D \<and>
           store m' = delete_setting (store m) scope_X setting_D)
    | _ \<Rightarrow> False)"
proof -
  have a: "(case main_loop example_env scope_X example_store [] [KEY_DOWN, KEY_DOWN, KEY_DOWN] of
      Done (Waiting m) \<Rightarrow>
        value_w m = ''v0'' \<and> stored (store m) (scope_X, setting_D) = Some ''v0'' \<and>
        \<not> editing m \<and> ro m = SETTING_ROW setting_D \<and> settings m = scope_X \<and>
        row example_env (settings m) (current m) = SETTING_ROW setting_D
    | _ \<Rightarrow> False)"
    by code_simp
  have b: "(case main_loop example_env scope_X example_store [] [KEY_DOWN, KEY_DOWN, KEY_DOWN] of
      Done (Waiting m) \<Rightarrow>
        (case main_loop_step example_env m CTRL_D of
           Done (Continue m') \<Rightarrow>
             total_rows m' = 5 \<and> value_w m' = [] \<and>
             stored (store m') (scope_X, setting_D) = None
         | _ \<Rightarrow> False)
    | _ \<Rightarrow> False)"
    by code_simp
  from a obtain m where
    w: "main_loop example_env scope_X example_store [] [KEY_DOWN, KEY_DOWN, KEY_DOWN]
          = Done (Waiting m)"
    and f: "value_w m = ''v0''" "stored (store m) (scope_X, setting_D) = Some ''v0''"
      "\<not> editing m" "ro m = SETTING_ROW setting_D" "settings m = scope_X"
      "row example_env (settings m) (current m) = SETTING_ROW setting_D"
    by (auto split: outcome.splits loop_end.splits)
  from b w have c: "(case main_loop_step example_env m CTRL_D of
           Done (Continue m') \<Rightarrow>
             total_rows m' = 5 \<and> value_w m' = [] \<and>
             stored (store m') (scope_X, setting_D) = None
         | _ \<Rightarrow> False)"
    by simp
  from delete_keeps_rows [OF f(3) f(4) f(6)]
  have "\<exists>m'. main_loop_step example_env m CTRL_D = Done (Continue m') \<and>
           total_rows m' = total_rows m \<and>
           (\<forall>i. row example_env (settings m') i = row example_env (settings m) i) \<and>
           ro m' = SETTING_ROW setting_D \<and>
           store m' = delete_setting (store m) scope_X setting_D"
    using f(5) by auto
  with w f c show ?thesis by simp
qed

text \<open>
  Claim C2 as stated fails: after the delete key on the setting row at index 3 of 5 rows,
  the row count is not one less and the row at index 3 is not the row that was at
  index 4.
\<close>

theorem delete_shifts_rows_counterexample:
  "(case main_loop example_env scope_X example_store [] [KEY_DOWN, KEY_DOWN, KEY_DOWN] of
      Done (Waiting m) \<Rightarrow>
        (case main_loop_step example_env m CTRL_D of
           Done (Continue m') \<Rightarrow>
             current m = 3 \<and> ro m = SETTING_ROW setting_D \<and> total_rows m = 5 \<and>
             row example_env (settings m) 4 = SETTING_ROW setting_F \<and>
             \<not> (total_rows m' = total_rows m - 1 \<and>
                row example_env (settings m') 3 = row example_env (settings m) 4)
         | _ \<Rightarrow> False)
    | _ \<Rightarrow> False)"
  by code_simp

end
